theory Spec2Isabelle
  imports Main "HOL-Library.Sublist"
begin

section \<open>Reviewer selection of highfive (\<^verbatim>\<open>src/highfive/newpr.py\<close>)\<close>

text \<open>
  A shallow embedding of the decision logic of \<^verbatim>\<open>HighfiveHandler\<close>: the diff scan that finds
  the most changed directory, the merge of the global groups, the work-list expansion of
  group aliases, the mention extraction, and the workflow of \<^verbatim>\<open>new_pr\<close>.

  Python strings are modelled as \<^typ>\<open>string\<close>, a Python \<^verbatim>\<open>dict\<close> as an association list in
  insertion order (looked up with \<^const>\<open>map_of\<close>; a well-formed dict has distinct keys),
  Python's unbounded integers as \<^typ>\<open>int\<close>, and every exception as a value of
  \<open>error\<close> on the left of a sum.
\<close>

subsection \<open>Exceptions\<close>

datatype error =
    AssertionError string
  | KeyError string
  | IndexError
  | HTTPError nat

type_synonym 'v dict = "(string \<times> 'v) list"

definition keys :: "'v dict \<Rightarrow> string set" where
  "keys d = fst ` set d"

text \<open>\<^verbatim>\<open>d[k] = v\<close>: an existing key keeps its position, a new key is appended.\<close>

fun dict_set :: "'v dict \<Rightarrow> string \<Rightarrow> 'v \<Rightarrow> 'v dict" where
  "dict_set [] k v = [(k, v)]"
| "dict_set ((k', v') # d) k v = (if k' = k then (k, v) # d else (k', v') # dict_set d k v)"

subsection \<open>String operations\<close>

text \<open>\<^verbatim>\<open>s.startswith(p)\<close> and \<^verbatim>\<open>s.endswith(e)\<close>.\<close>

definition startswith :: "string \<Rightarrow> string \<Rightarrow> bool" where
  "startswith s p = prefix p s"

definition endswith :: "string \<Rightarrow> string \<Rightarrow> bool" where
  "endswith s e = prefix (rev e) (rev s)"

text \<open>\<^verbatim>\<open>s.split(c)\<close> for a one-character separator: never the empty list.\<close>

fun split_str :: "char \<Rightarrow> string \<Rightarrow> string list" where
  "split_str c [] = [[]]"
| "split_str c (x # xs) =
     (if x = c then [] # split_str c xs
      else (case split_str c xs of [] \<Rightarrow> [[x]] | w # ws \<Rightarrow> (x # w) # ws))"

text \<open>\<^verbatim>\<open>sep.join(xs)\<close>.\<close>

fun join :: "string \<Rightarrow> string list \<Rightarrow> string" where
  "join sep [] = []"
| "join sep [x] = x"
| "join sep (x # y # ys) = x @ sep @ join sep (y # ys)"

text \<open>\<^verbatim>\<open>s.find(sub)\<close>: the index of the first occurrence, or \<open>-1\<close>.\<close>

fun find_from :: "string \<Rightarrow> string \<Rightarrow> int \<Rightarrow> int" where
  "find_from sub [] i = (if sub = [] then i else - 1)"
| "find_from sub (x # xs) i = (if prefix sub (x # xs) then i else find_from sub xs (i + 1))"

definition find_str :: "string \<Rightarrow> string \<Rightarrow> int" where
  "find_str s sub = find_from sub s 0"

subsection \<open>The diff scan of \<^verbatim>\<open>choose_reviewer\<close> (lines 245 to 277)\<close>

text \<open>
  \<^verbatim>\<open>line[line.find(" b/") + len(" b/"):].split("/")\<close>. When the marker is absent
  \<^verbatim>\<open>find\<close> returns \<open>-1\<close> and the slice starts at index 2.
\<close>

definition header_parts :: "string \<Rightarrow> string list" where
  "header_parts line = split_str (CHR ''/'') (drop (nat (find_str line '' b/'' + 3)) line)"

text \<open>
  The value of \<^verbatim>\<open>cur_dir\<close> after a header line: \<^verbatim>\<open>None\<close> when \<^verbatim>\<open>parts\<close> is empty or the
  directory is \<^verbatim>\<open>src/test\<close>, else the first two segments, folded to \<^verbatim>\<open>src/librustc\<close>.
\<close>

definition header_dir :: "string \<Rightarrow> string option" where
  "header_dir line =
     (let parts = header_parts line in
      if parts = [] then None
      else
        let cur_dir = join ''/'' (take 2 parts);
            cur_dir = (if startswith cur_dir ''src/librustc'' then ''src/librustc'' else cur_dir)
        in if cur_dir = ''src/test'' then None else Some cur_dir)"

text \<open>
  One iteration of the loop over the lines; the state is \<^verbatim>\<open>(counts, cur_dir)\<close>. The test
  \<^verbatim>\<open>if cur_dir\<close> holds for a string that is neither \<^verbatim>\<open>None\<close> nor empty. \<^verbatim>\<open>counts[cur_dir] += 1\<close>
  raises \<^verbatim>\<open>KeyError\<close> on a missing key.
\<close>

definition scan_line ::
  "int dict \<times> string option \<Rightarrow> string \<Rightarrow> error + (int dict \<times> string option)" where
  "scan_line st line =
     (case st of (counts, cur_dir) \<Rightarrow>
        if startswith line ''diff --git '' then
          (case header_dir line of
             None \<Rightarrow> Inr (counts, None)
           | Some d \<Rightarrow>
               if d \<noteq> [] \<and> d \<notin> keys counts then Inr (counts @ [(d, 0)], Some d)
               else Inr (counts, Some d))
        else
          (case cur_dir of
             None \<Rightarrow> Inr (counts, cur_dir)
           | Some d \<Rightarrow>
               if d \<noteq> [] \<and> \<not> startswith line ''+++'' \<and> startswith line ''+'' then
                 (case map_of counts d of
                    None \<Rightarrow> Inl (KeyError d)
                  | Some n \<Rightarrow> Inr (dict_set counts d (n + 1), cur_dir))
               else Inr (counts, cur_dir)))"

fun scan_lines ::
  "int dict \<times> string option \<Rightarrow> string list \<Rightarrow> error + (int dict \<times> string option)" where
  "scan_lines st [] = Inr st"
| "scan_lines st (l # ls) =
     (case scan_line st l of Inl e \<Rightarrow> Inl e | Inr st' \<Rightarrow> scan_lines st' ls)"

text \<open>The tally of added lines per directory: \<^verbatim>\<open>counts\<close> after the loop.\<close>

definition tally :: "string \<Rightarrow> error + int dict" where
  "tally diff =
     (case scan_lines ([], None) (split_str (CHR 0x0A) diff) of
        Inl e \<Rightarrow> Inl e
      | Inr (counts, cur_dir) \<Rightarrow> Inr counts)"

text \<open>\<^verbatim>\<open>for directory, changes in counts.items()\<close>: keep the first strictly larger count.\<close>

fun largest :: "int \<times> string option \<Rightarrow> int dict \<Rightarrow> int \<times> string option" where
  "largest acc [] = acc"
| "largest (most_changes, most_changed) ((directory, changes) # rest) =
     (if changes > most_changes then largest (changes, Some directory) rest
      else largest (most_changes, most_changed) rest)"

definition most_changed :: "'v dict \<Rightarrow> string \<Rightarrow> error + string option" where
  "most_changed dirs diff =
     (if dirs \<noteq> [] then
        (case tally diff of
           Inl e \<Rightarrow> Inl e
         | Inr counts \<Rightarrow> Inr (snd (largest (0, None) counts)))
      else Inr None)"

subsection \<open>Added lines per directory, as the specification words them\<close>












subsection \<open>The repository configuration\<close>

text \<open>
  A mention rule: \<^verbatim>\<open>message\<close> and \<^verbatim>\<open>command\<close> are read with \<^verbatim>\<open>.get\<close> and may be absent,
  \<^verbatim>\<open>reviewers\<close> is read with \<^verbatim>\<open>mention['reviewers']\<close>.
\<close>

record mention =
  m_message :: "string option"
  m_command :: "string option"
  m_reviewers :: "string list"

text \<open>
  The JSON file of a repository. \<^verbatim>\<open>dirs\<close>, \<^verbatim>\<open>mentions\<close>, \<^verbatim>\<open>contributing\<close>,
  \<^verbatim>\<open>expected_branch\<close> and \<^verbatim>\<open>new_pr_labels\<close> are read with \<^verbatim>\<open>.get\<close>; \<^verbatim>\<open>groups\<close> is read with
  \<^verbatim>\<open>self.repo_config['groups']\<close>, which raises \<^verbatim>\<open>KeyError\<close> when the key is absent.
\<close>

record repo_config =
  cfg_dirs :: "string list dict option"
  cfg_groups :: "string list dict option"
  cfg_mentions :: "mention dict option"
  cfg_contributing :: "string option"
  cfg_expected_branch :: "string option"
  cfg_new_pr_labels :: "string list option"

text \<open>\<^verbatim>\<open>self.repo_config.get('dirs', {})\<close> and \<^verbatim>\<open>self.repo_config.get('mentions', {})\<close>.\<close>

definition get_dirs :: "repo_config \<Rightarrow> string list dict" where
  "get_dirs cfg = (case cfg_dirs cfg of None \<Rightarrow> [] | Some d \<Rightarrow> d)"

definition get_mentions :: "repo_config \<Rightarrow> mention dict" where
  "get_mentions cfg = (case cfg_mentions cfg of None \<Rightarrow> [] | Some m \<Rightarrow> m)"

subsection \<open>Merging the global groups (lines 238 to 243)\<close>

text \<open>
  \<^verbatim>\<open>for name, people in global_['groups'].items(): assert name not in groups; groups[name] = people\<close>.
  The argument \<open>global_groups\<close> is the value of \<^verbatim>\<open>global_['groups']\<close> read from
  \<^verbatim>\<open>_global.json\<close>. A failed \<^verbatim>\<open>assert\<close> is the exception \<^verbatim>\<open>AssertionError\<close> with its message.
\<close>

fun merge_global :: "string list dict \<Rightarrow> string list dict \<Rightarrow> error + string list dict" where
  "merge_global groups [] = Inr groups"
| "merge_global groups ((name, people) # rest) =
     (if name \<in> keys groups
      then Inl (AssertionError (''group '' @ name @ '' overlaps with _global.json''))
      else merge_global (dict_set groups name people) rest)"

subsection \<open>The expansion of the reviewers list (lines 286 to 299)\<close>

text \<open>
  The work list \<^verbatim>\<open>potential\<close> is not a copy: it is the list object stored in the dict
  \<^verbatim>\<open>groups\<close> under \<^verbatim>\<open>'all'\<close>, or under \<^verbatim>\<open>'core'\<close> after the fallback of line 284. So
  \<^verbatim>\<open>potential.pop()\<close> and \<^verbatim>\<open>potential.extend(...)\<close> change that entry of \<^verbatim>\<open>groups\<close>, and reading
  \<^verbatim>\<open>groups[p]\<close> for that key yields the work list as it is at that moment. The model keeps
  the dict as it was before the loop, the key \<open>pk\<close> whose entry is the work list, and the
  current work list; \<^verbatim>\<open>groups[p]\<close> is the work list when \<open>p = pk\<close>, and the stored entry
  otherwise. No other list is shared: \<^verbatim>\<open>extend\<close> copies the elements.

  The loop returns the group names in the order of their \<^verbatim>\<open>seen.add(p)\<close>, and either the
  exception raised or the final \<^verbatim>\<open>reviewers\<close>.
\<close>

function expand_loop ::
  "string list dict \<Rightarrow> string \<Rightarrow> string list \<Rightarrow> string list \<Rightarrow> string set
     \<Rightarrow> string list \<times> (error + string list)" where
  "expand_loop groups pk potential reviewers seen =
     (if potential = [] then ([], Inr reviewers)
      else
        let p = last potential; potential = butlast potential in
        if startswith p ''@'' then expand_loop groups pk potential (reviewers @ [tl p]) seen
        else
          (case map_of groups p of
             None \<Rightarrow> expand_loop groups pk potential reviewers seen
           | Some members \<Rightarrow>
               if p \<in> seen
               then ([], Inl (AssertionError (''group '' @ p @ '' refers to itself'')))
               else
                 (case expand_loop groups pk
                         (potential @ (if p = pk then potential else members))
                         reviewers (insert p seen)
                  of (order, result) \<Rightarrow> (p # order, result))))"
  by pat_completeness auto
termination
proof (relation "measures [\<lambda>(groups, pk, potential, reviewers, seen). card (keys groups - seen),
                           \<lambda>(groups, pk, potential, reviewers, seen). length potential]")
  show "wf (measures [\<lambda>(groups, pk, potential, reviewers, seen). card (keys groups - seen),
                      \<lambda>(groups, pk, potential, reviewers, seen). length potential])"
    by simp
next
  fix groups :: "string list dict" and pk :: string and potential reviewers :: "string list"
    and seen :: "string set" and x xa
  assume "potential \<noteq> []" "x = last potential" "xa = butlast potential"
  then show "((groups, pk, xa, reviewers @ [tl x], seen), groups, pk, potential, reviewers, seen)
     \<in> measures [\<lambda>(groups, pk, potential, reviewers, seen). card (keys groups - seen),
                  \<lambda>(groups, pk, potential, reviewers, seen). length potential]"
    by simp
next
  fix groups :: "string list dict" and pk :: string and potential reviewers :: "string list"
    and seen :: "string set" and x xa
  assume "potential \<noteq> []" "x = last potential" "xa = butlast potential"
  then show "((groups, pk, xa, reviewers, seen), groups, pk, potential, reviewers, seen)
     \<in> measures [\<lambda>(groups, pk, potential, reviewers, seen). card (keys groups - seen),
                  \<lambda>(groups, pk, potential, reviewers, seen). length potential]"
    by simp
next
  fix groups :: "string list dict" and pk :: string and potential reviewers :: "string list"
    and seen :: "string set" and x xa x2
  assume a: "map_of groups x = Some x2" "x \<notin> seen"
  have "x \<in> keys groups" using a(1) by (auto simp: keys_def dest: map_of_SomeD intro: rev_image_eqI)
  moreover have "finite (keys groups - seen)" by (simp add: keys_def)
  ultimately have "card (keys groups - insert x seen) < card (keys groups - seen)"
    using a(2) by (intro psubset_card_mono) auto
  then show "((groups, pk, xa @ (if x = pk then xa else x2), reviewers, insert x seen),
        groups, pk, potential, reviewers, seen)
     \<in> measures [\<lambda>(groups, pk, potential, reviewers, seen). card (keys groups - seen),
                  \<lambda>(groups, pk, potential, reviewers, seen). length potential]"
    by simp
qed

text \<open>The outcome of the loop, and the groups it expanded.\<close>

definition expand ::
  "string list dict \<Rightarrow> string \<Rightarrow> string list \<Rightarrow> string list \<Rightarrow> string set
     \<Rightarrow> error + string list" where
  "expand groups pk potential reviewers seen = snd (expand_loop groups pk potential reviewers seen)"


subsection \<open>\<^verbatim>\<open>choose_reviewer\<close> (lines 232 to 308)\<close>

text \<open>
  Lines 279 to 299: the candidate pool and its expansion. \<^verbatim>\<open>groups['all']\<close> and
  \<^verbatim>\<open>groups['core']\<close> raise \<^verbatim>\<open>KeyError\<close> on a missing key. \<^verbatim>\<open>potential.extend(dirs[most_changed])\<close>
  appends to the list stored under \<^verbatim>\<open>'all'\<close>; when the result is empty, \<^verbatim>\<open>potential\<close> becomes
  the list stored under \<^verbatim>\<open>'core'\<close>. The argument \<open>winner\<close> is the source's variable
  \<^verbatim>\<open>most_changed\<close>, and \<open>extended\<close> is the content of \<^verbatim>\<open>potential\<close> after line 282.
\<close>

definition extended :: "string list \<Rightarrow> string list dict \<Rightarrow> string option \<Rightarrow> string list" where
  "extended all dirs winner =
     (case winner of
        None \<Rightarrow> all
      | Some d \<Rightarrow>
          (case map_of dirs d of
             None \<Rightarrow> all
           | Some aliases \<Rightarrow> if d \<noteq> [] then all @ aliases else all))"

definition expand_potential ::
  "string list dict \<Rightarrow> string list dict \<Rightarrow> string option \<Rightarrow> error + string list" where
  "expand_potential groups dirs winner =
     (case map_of groups ''all'' of
        None \<Rightarrow> Inl (KeyError ''all'')
      | Some all \<Rightarrow>
          let potential = extended all dirs winner
          in if potential = [] then
               (case map_of groups ''core'' of
                  None \<Rightarrow> Inl (KeyError ''core'')
                | Some core \<Rightarrow> expand groups ''core'' core [] {''all''})
             else expand groups ''all'' potential [] {''all''})"

text \<open>
  \<^verbatim>\<open>random.choice(reviewers)\<close> returns some element of the non-empty list; the draw is the
  argument \<open>rnd\<close>, and every element is the result for some \<open>rnd\<close>.
\<close>

definition choice :: "nat \<Rightarrow> 'a list \<Rightarrow> 'a" where
  "choice rnd xs = xs ! (rnd mod length xs)"

text \<open>
  The whole function. \<^verbatim>\<open>reviewers.remove(exclude)\<close> removes the first occurrence of
  \<^verbatim>\<open>exclude\<close>, which is \<^const>\<open>remove1\<close>. The arguments \<^verbatim>\<open>repo\<close> and \<^verbatim>\<open>owner\<close> are not used by
  the source and are left out.
\<close>

definition choose_reviewer ::
  "repo_config \<Rightarrow> string list dict \<Rightarrow> string \<Rightarrow> string \<Rightarrow> nat \<Rightarrow> error + string option" where
  "choose_reviewer cfg global_groups diff exclude rnd =
     (let dirs = get_dirs cfg in
      case cfg_groups cfg of
        None \<Rightarrow> Inl (KeyError ''groups'')
      | Some repo_groups \<Rightarrow>
          (case merge_global repo_groups global_groups of
             Inl e \<Rightarrow> Inl e
           | Inr groups \<Rightarrow>
               (case most_changed dirs diff of
                  Inl e \<Rightarrow> Inl e
                | Inr winner \<Rightarrow>
                    (case expand_potential groups dirs winner of
                       Inl e \<Rightarrow> Inl e
                     | Inr reviewers \<Rightarrow>
                         let reviewers = remove1 exclude reviewers in
                         if reviewers \<noteq> [] then Inr (Some (choice rnd reviewers))
                         else Inr None))))"

subsection \<open>Alias references between groups\<close>

text \<open>
  An alias token is a group reference when it does not start with \<^verbatim>\<open>@\<close> and names a group.
  \<open>refers groups\<close> relates a group to the groups its list references.
\<close>

definition group_ref :: "string list dict \<Rightarrow> string \<Rightarrow> bool" where
  "group_ref groups t \<longleftrightarrow> \<not> startswith t ''@'' \<and> t \<in> keys groups"

definition refers :: "string list dict \<Rightarrow> (string \<times> string) set" where
  "refers groups = {(a, b). \<exists>members. map_of groups a = Some members \<and> b \<in> set members \<and>
                                      group_ref groups b}"

text \<open>
  The group references among a list of alias tokens, those of the list of a group, and the
  groups reached from a list of tokens: the groups it references, the groups that these
  reference, and so on.
\<close>

definition group_refs :: "string list dict \<Rightarrow> string list \<Rightarrow> string list" where
  "group_refs groups tokens = filter (group_ref groups) tokens"

definition refs_of :: "string list dict \<Rightarrow> string \<Rightarrow> string list" where
  "refs_of groups g =
     (case map_of groups g of None \<Rightarrow> [] | Some members \<Rightarrow> group_refs groups members)"

definition reached :: "string list dict \<Rightarrow> string list \<Rightarrow> string set" where
  "reached groups tokens = (refers groups)\<^sup>* `` set (group_refs groups tokens)"

text \<open>
  Every group is referenced at most once from the pool and the lists of the groups reached
  from it, and no group in \<open>seen\<close> is referenced there at all. The first three clauses say
  that no group reference occurs twice: not twice in the pool, not twice in the list of a
  reached group, not in the pool and in such a list, not in the lists of two reached groups.
  Groups that the pool does not reach are not constrained.
\<close>

definition referenced_once :: "string list dict \<Rightarrow> string list \<Rightarrow> string set \<Rightarrow> bool" where
  "referenced_once groups pool seen \<longleftrightarrow>
     distinct (group_refs groups pool) \<and>
     (\<forall>g\<in>reached groups pool.
        distinct (refs_of groups g) \<and>
        set (refs_of groups g) \<inter> set (group_refs groups pool) = {}) \<and>
     (\<forall>g\<in>reached groups pool. \<forall>h\<in>reached groups pool.
        g \<noteq> h \<longrightarrow> set (refs_of groups g) \<inter> set (refs_of groups h) = {}) \<and>
     reached groups pool \<inter> seen = {}"

text \<open>The exception of the failed \<^verbatim>\<open>assert p not in seen\<close> of line 296.\<close>

definition cycle_error :: "string \<Rightarrow> error" where
  "cycle_error p = AssertionError (''group '' @ p @ '' refers to itself'')"

subsection \<open>\<^verbatim>\<open>get_to_mention\<close> (lines 310 to 348)\<close>

text \<open>\<^verbatim>\<open>for entry in mentions\<close> (lines 338 to 343), over the keys in the order of the dict.\<close>

fun match_entries :: "string \<Rightarrow> string list \<Rightarrow> string list \<Rightarrow> string list" where
  "match_entries full_dir [] to_mention = to_mention"
| "match_entries full_dir (entry # rest) to_mention =
     (if startswith full_dir entry \<and> entry \<notin> set to_mention
      then match_entries full_dir rest (to_mention @ [entry])
      else if endswith entry ''.rs'' \<and> endswith full_dir entry \<and> entry \<notin> set to_mention
      then match_entries full_dir rest (to_mention @ [entry])
      else match_entries full_dir rest to_mention)"

text \<open>
  One iteration of the loop over the lines. The variable \<^verbatim>\<open>cur_dir\<close> of the source is
  assigned in this loop and never read, so the state is \<^verbatim>\<open>to_mention\<close> alone.
\<close>

definition mention_line :: "mention dict \<Rightarrow> string list \<Rightarrow> string \<Rightarrow> string list" where
  "mention_line mentions to_mention line =
     (if startswith line ''diff --git '' then
        (let parts = header_parts line in
         if parts = [] then to_mention
         else
           let full_dir = join ''/'' parts in
           if length full_dir > 0 then match_entries full_dir (map fst mentions) to_mention
           else to_mention)
      else to_mention)"

text \<open>\<^verbatim>\<open>mention_list.append(mentions[mention])\<close> for each recorded key.\<close>

fun lookup_all :: "'v dict \<Rightarrow> string list \<Rightarrow> error + 'v list" where
  "lookup_all d [] = Inr []"
| "lookup_all d (k # ks) =
     (case map_of d k of
        None \<Rightarrow> Inl (KeyError k)
      | Some v \<Rightarrow> (case lookup_all d ks of Inl e \<Rightarrow> Inl e | Inr vs \<Rightarrow> Inr (v # vs)))"

definition to_mention_keys :: "repo_config \<Rightarrow> string \<Rightarrow> string list" where
  "to_mention_keys cfg diff =
     (if get_dirs cfg \<noteq> []
      then foldl (mention_line (get_mentions cfg)) [] (split_str (CHR 0x0A) diff)
      else [])"

definition get_to_mention :: "repo_config \<Rightarrow> string \<Rightarrow> error + mention list" where
  "get_to_mention cfg diff = lookup_all (get_mentions cfg) (to_mention_keys cfg diff)"

subsection \<open>The matched mention rules, as the specification words them\<close>

text \<open>
  A pattern matches a path by prefix, or by suffix when the pattern ends in \<^verbatim>\<open>.rs\<close>.
\<close>

definition pattern_matches :: "string \<Rightarrow> string \<Rightarrow> bool" where
  "pattern_matches path entry \<longleftrightarrow> prefix entry path \<or> (suffix ''.rs'' entry \<and> suffix entry path)"

text \<open>The file path of each diff header: what follows the first \<^verbatim>\<open> b/\<close> of the line.\<close>

definition header_paths :: "string \<Rightarrow> string list" where
  "header_paths diff =
     map (\<lambda>line. drop (nat (find_str line '' b/'' + 3)) line)
         (filter (\<lambda>line. startswith line ''diff --git '') (split_str (CHR 0x0A) diff))"

text \<open>Every match, path by path and pattern by pattern, in the order of encounter.\<close>

definition all_matches :: "mention dict \<Rightarrow> string \<Rightarrow> string list" where
  "all_matches mentions diff =
     concat (map (\<lambda>path. if path \<noteq> [] then filter (pattern_matches path) (map fst mentions) else [])
                 (header_paths diff))"

text \<open>Deduplication that keeps the first occurrence of each element.\<close>

primrec first_occurrences :: "'a list \<Rightarrow> 'a list" where
  "first_occurrences [] = []"
| "first_occurrences (x # xs) = x # filter (\<lambda>y. y \<noteq> x) (first_occurrences xs)"

text \<open>Appending the elements of a list that are not yet recorded, one by one.\<close>

definition add_new :: "'a list \<Rightarrow> 'a list \<Rightarrow> 'a list" where
  "add_new acc xs = fold (\<lambda>x a. if x \<in> set a then a else a @ [x]) xs acc"

subsection \<open>\<^verbatim>\<open>find_reviewer\<close> (lines 223 to 230)\<close>

text \<open>
  \<^verbatim>\<open>reviewer_re\<close> is the regular expression \<^verbatim>\<open>\b[rR]\?[:\- ]*@([a-zA-Z0-9\-]+)\<close>, and
  \<^verbatim>\<open>reviewer_re.search(msg)\<close> returns its leftmost match. Characters are code points below
  256. \<^verbatim>\<open>\w\<close> on a Python 3 string is an underscore or a character for which
  \<^verbatim>\<open>str.isalnum\<close> holds: the ASCII letters and digits and, above 127, the letters,
  superscript digits and fractions of Latin-1.
\<close>

definition is_word :: "char \<Rightarrow> bool" where
  "is_word c =
     (let n = (of_char c :: nat) in
      (48 \<le> n \<and> n \<le> 57) \<or> (65 \<le> n \<and> n \<le> 90) \<or> n = 95 \<or> (97 \<le> n \<and> n \<le> 122) \<or>
      n \<in> {170, 178, 179, 181, 185, 186, 188, 189, 190} \<or>
      (192 \<le> n \<and> n \<le> 214) \<or> (216 \<le> n \<and> n \<le> 246) \<or> (248 \<le> n \<and> n \<le> 255))"

text \<open>\<^verbatim>\<open>\b\<close>: exactly one of the characters before and after the position is a word character;
  beyond either end of the string there is none.\<close>

definition word_boundary :: "char option \<Rightarrow> char option \<Rightarrow> bool" where
  "word_boundary prev nxt =
     ((case prev of None \<Rightarrow> False | Some c \<Rightarrow> is_word c)
        \<noteq> (case nxt of None \<Rightarrow> False | Some c \<Rightarrow> is_word c))"

text \<open>The classes \<^verbatim>\<open>[:\- ]\<close> and \<^verbatim>\<open>[a-zA-Z0-9\-]\<close>.\<close>

definition is_sep :: "char \<Rightarrow> bool" where
  "is_sep c = (c = CHR '':'' \<or> c = CHR ''-'' \<or> c = CHR '' '')"

definition is_name :: "char \<Rightarrow> bool" where
  "is_name c =
     (let n = (of_char c :: nat) in
      (97 \<le> n \<and> n \<le> 122) \<or> (65 \<le> n \<and> n \<le> 90) \<or> (48 \<le> n \<and> n \<le> 57) \<or> c = CHR ''-'')"

text \<open>
  A match that starts at the head of \<open>s\<close>, where \<open>prev\<close> is the character in front of
  it: the value of group 1. Both repetitions are greedy, and neither can give a character
  back: \<^verbatim>\<open>@\<close> is not a separator, and nothing follows the name.
\<close>

definition match_at :: "char option \<Rightarrow> string \<Rightarrow> string option" where
  "match_at prev s =
     (case s of
        c # q # rest \<Rightarrow>
          if word_boundary prev (Some c) \<and> (c = CHR ''r'' \<or> c = CHR ''R'') \<and> q = CHR ''?''
          then
            (case dropWhile is_sep rest of
               [] \<Rightarrow> None
             | a # tail \<Rightarrow>
                 if a = CHR ''@'' \<and> takeWhile is_name tail \<noteq> []
                 then Some (takeWhile is_name tail) else None)
          else None
      | _ \<Rightarrow> None)"

fun re_search :: "char option \<Rightarrow> string \<Rightarrow> string option" where
  "re_search prev [] = None"
| "re_search prev (c # cs) =
     (case match_at prev (c # cs) of
        Some name \<Rightarrow> Some name
      | None \<Rightarrow> re_search (Some c) cs)"

definition find_reviewer :: "string option \<Rightarrow> string option" where
  "find_reviewer msg = (case msg of None \<Rightarrow> None | Some m \<Rightarrow> re_search None m)"

text \<open>
  A reviewer mention, as the specification words it, at position \<open>i\<close> of a body: an \<^verbatim>\<open>r\<close>
  or \<^verbatim>\<open>R\<close> that does not follow a word character, a \<^verbatim>\<open>?\<close>, any number of the separators
  \<^verbatim>\<open>:\<close>, \<^verbatim>\<open>-\<close> and space, an \<^verbatim>\<open>@\<close>, and the name: the longest run of letters, digits and \<^verbatim>\<open>-\<close>.
\<close>

definition mention_at :: "string \<Rightarrow> nat \<Rightarrow> string \<Rightarrow> bool" where
  "mention_at body i name \<longleftrightarrow>
     (\<exists>c seps post.
        i \<le> length body \<and> body = take i body @ c # ''?'' @ seps @ ''@'' @ name @ post \<and>
        (c = CHR ''r'' \<or> c = CHR ''R'') \<and>
        (i = 0 \<or> \<not> is_word (body ! (i - 1))) \<and>
        (\<forall>x\<in>set seps. is_sep x) \<and>
        name \<noteq> [] \<and> (\<forall>x\<in>set name. is_name x) \<and>
        (post = [] \<or> \<not> is_name (hd post)))"

subsection \<open>The workflow of \<^verbatim>\<open>new_pr\<close> (lines 356 to 397)\<close>

text \<open>
  What the handler does to the outside is a list of actions in the order of the calls; each
  call site of \<^verbatim>\<open>post_comment\<close> has its own constructor. \<open>LoadGlobalConfig\<close> is the read of
  \<^verbatim>\<open>_global.json\<close> in \<^verbatim>\<open>choose_reviewer\<close>.
\<close>

datatype action =
    FetchDiff
  | LoadGlobalConfig
  | SetAssignee "string option"
  | MentionComment string
  | SearchCommits string
  | WelcomeComment string
  | ReviewComment string
  | WarningComment string
  | AddLabels "string list"

text \<open>
  The fields of the webhook payload that \<^verbatim>\<open>new_pr\<close> reads. The owner, the repository name,
  the issue number and the URL of the pull request only build request URLs and are left out.
\<close>

record payload =
  pr_assignees :: "string list"
  pr_body :: "string option"
  pr_author :: string
  pr_base_label :: string
  pr_head_sha :: string
  repo_fork :: bool

text \<open>
  What the handler reads from outside: its own GitHub user name, the groups of
  \<^verbatim>\<open>_global.json\<close>, the draw of \<^verbatim>\<open>random.choice\<close>, and the answers of the GitHub API. An
  answer \<open>Inl code\<close> or \<open>Some code\<close> is \<^verbatim>\<open>urllib.error.HTTPError\<close> with that code.
\<close>

record environment =
  env_integration_user :: string
  env_global_groups :: "string list dict"
  env_random_draw :: nat
  gw_diff :: "nat + string"
  gw_assignee :: "string option \<Rightarrow> nat option"
  gw_comment :: "string \<Rightarrow> nat option"
  gw_search :: "nat + int"
  gw_labels :: "nat option"

text \<open>A step yields the actions it performed and its value, or the exception that ended it.\<close>

type_synonym 'a run = "action list \<times> (error + 'a)"

definition bind :: "'a run \<Rightarrow> ('a \<Rightarrow> 'b run) \<Rightarrow> 'b run" where
  "bind m f =
     (case m of
        (acts, Inl e) \<Rightarrow> (acts, Inl e)
      | (acts, Inr x) \<Rightarrow> (case f x of (acts', r) \<Rightarrow> (acts @ acts', r)))"

text \<open>\<^verbatim>\<open>except urllib.error.HTTPError as e: if e.code == 201: pass else: raise e\<close>.\<close>

definition tolerate_201 :: "nat option \<Rightarrow> error + unit" where
  "tolerate_201 answer =
     (case answer of
        None \<Rightarrow> Inr ()
      | Some code \<Rightarrow> if code = 201 then Inr () else Inl (HTTPError code))"

definition post_comment :: "environment \<Rightarrow> (string \<Rightarrow> action) \<Rightarrow> string \<Rightarrow> unit run" where
  "post_comment env kind body = ([kind body], tolerate_201 (gw_comment env body))"

text \<open>\<^verbatim>\<open>run_commands\<close> (lines 117 to 138): the loop over the mentions, then over the commands.\<close>

fun mention_loop ::
  "string \<Rightarrow> string \<Rightarrow> mention list \<Rightarrow> string \<times> string dict \<Rightarrow> string \<times> string dict" where
  "mention_loop user sha [] st = st"
| "mention_loop user sha (mention # rest) (message, commands) =
     (let message = (if length message > 0 then message @ ''\<newline>\<newline>'' else message);
          msg = (case m_message mention of Some m \<Rightarrow> m @ ''\<newline>\<newline>'' | None \<Rightarrow> []);
          message = message @ msg @ ''cc ''
                      @ join '','' (filter (\<lambda>x. x \<noteq> user) (m_reviewers mention));
          commands = (case m_command mention of
                        Some cmd \<Rightarrow> dict_set commands cmd sha
                      | None \<Rightarrow> commands)
      in mention_loop user sha rest (message, commands))"

fun command_loop :: "string dict \<Rightarrow> string \<Rightarrow> string" where
  "command_loop [] message = message"
| "command_loop ((cmd, v) # rest) message =
     command_loop rest
       ((if length message > 0 then message @ ''\<newline>\<newline>'' else message) @ cmd @ '' '' @ v)"

definition run_commands :: "environment \<Rightarrow> mention list \<Rightarrow> string \<Rightarrow> string \<Rightarrow> unit run" where
  "run_commands env to_mention user sha =
     (if to_mention \<noteq> [] then
        (case mention_loop user sha to_mention ([], []) of
           (message, commands) \<Rightarrow>
             let message = command_loop commands message in
             if length message > 0 then post_comment env MentionComment message
             else ([], Inr ()))
      else ([], Inr ()))"

text \<open>\<^verbatim>\<open>set_assignee\<close> (lines 103 to 115).\<close>

definition set_assignee ::
  "environment \<Rightarrow> string option \<Rightarrow> mention list \<Rightarrow> string \<Rightarrow> string \<Rightarrow> unit run" where
  "set_assignee env assignee to_mention user sha =
     bind ([SetAssignee assignee], tolerate_201 (gw_assignee env assignee))
          (\<lambda>_. run_commands env to_mention user sha)"

text \<open>\<^verbatim>\<open>is_new_contributor\<close> (lines 204 to 221).\<close>

definition is_new_contributor :: "environment \<Rightarrow> payload \<Rightarrow> bool run" where
  "is_new_contributor env pl =
     (if repo_fork pl then ([], Inr False)
      else ([SearchCommits (pr_author pl)],
            (case gw_search env of
               Inr total_count \<Rightarrow> Inr (total_count = 0)
             | Inl code \<Rightarrow> if code = 422 then Inr True else Inl (HTTPError code))))"

text \<open>\<^verbatim>\<open>welcome_msg\<close> and \<^verbatim>\<open>review_msg\<close> (lines 177 to 190).\<close>

definition welcome_msg :: "repo_config \<Rightarrow> string option \<Rightarrow> string" where
  "welcome_msg cfg reviewer =
     (let text = (case reviewer of
                    None \<Rightarrow> ''@nrc (NB. this repo may be misconfigured)''
                  | Some r \<Rightarrow> ''@'' @ r @ '' (or someone else)'');
          link = (case cfg_contributing cfg of
                    None \<Rightarrow> ''https://github.com/rust-lang/rust/blob/master/CONTRIBUTING.md''
                  | Some l \<Rightarrow>
                      if l \<noteq> [] then l
                      else ''https://github.com/rust-lang/rust/blob/master/CONTRIBUTING.md'')
      in ''Thanks for the pull request, and welcome! The Rust team is excited to review your changes, and you should hear from ''
         @ text @ '' soon.\<newline>\<newline>''
         @ ''If any changes to this PR are deemed necessary, please add them as extra commits. ''
         @ ''This ensures that the reviewer can see what has changed since they last reviewed the code. ''
         @ ''Due to the way GitHub handles out-of-date commits, this should also make it reasonably obvious what issues have or haven't been addressed. ''
         @ ''Large or tricky changes may require several passes of review and changes.\<newline>\<newline>''
         @ ''Please see [the contribution instructions]('' @ link @ '') for more information.\<newline>'')"

definition review_msg :: "string option \<Rightarrow> string \<Rightarrow> string" where
  "review_msg reviewer submitter =
     (case reviewer of
        None \<Rightarrow> ''@'' @ submitter @ '': no appropriate reviewer found, use r? to override''
      | Some r \<Rightarrow>
          ''r? @'' @ r
            @ ''\<newline>\<newline>(rust_highfive has picked a reviewer for you, use r? to override)'')"

text \<open>
  \<^verbatim>\<open>unexpected_branch\<close> (lines 192 to 202); \<^verbatim>\<open>split(':')[1]\<close> raises \<^verbatim>\<open>IndexError\<close> on a
  label without a colon.
\<close>

definition unexpected_branch :: "repo_config \<Rightarrow> payload \<Rightarrow> error + (string \<times> string) option" where
  "unexpected_branch cfg pl =
     (let expected_target = (case cfg_expected_branch cfg of None \<Rightarrow> ''master'' | Some b \<Rightarrow> b)
      in case split_str (CHR '':'') (pr_base_label pl) of
           head # actual_target # others \<Rightarrow>
             Inr (if expected_target \<noteq> actual_target
                  then Some (expected_target, actual_target) else None)
         | _ \<Rightarrow> Inl IndexError)"

text \<open>
  \<^verbatim>\<open>modifies_submodule\<close> (line 82): \<^verbatim>\<open>submodule_re\<close> is \<^verbatim>\<open>.*\+Subproject\scommit\s.*\<close> with
  \<^verbatim>\<open>re.DOTALL\<close>, so \<^verbatim>\<open>match\<close> succeeds when the text holds \<^verbatim>\<open>+Subproject\<close>, a white-space
  character, \<^verbatim>\<open>commit\<close> and a white-space character. \<^verbatim>\<open>\s\<close> on a Python 3 string is a
  character for which \<^verbatim>\<open>str.isspace\<close> holds.
\<close>

definition is_space :: "char \<Rightarrow> bool" where
  "is_space c = ((of_char c :: nat) \<in> {9, 10, 11, 12, 13, 28, 29, 30, 31, 32, 133, 160})"

definition submodule_here :: "string \<Rightarrow> bool" where
  "submodule_here s =
     (prefix ''+Subproject'' s \<and>
      (case drop 11 s of
         [] \<Rightarrow> False
       | w # rest \<Rightarrow>
           is_space w \<and> prefix ''commit'' rest \<and>
           (case drop 6 rest of [] \<Rightarrow> False | w' # rest' \<Rightarrow> is_space w')))"

fun modifies_submodule :: "string \<Rightarrow> bool" where
  "modifies_submodule [] = False"
| "modifies_submodule (c # cs) = (submodule_here (c # cs) \<or> modifies_submodule cs)"

text \<open>\<^verbatim>\<open>post_warnings\<close> (lines 153 to 164).\<close>

definition post_warnings :: "environment \<Rightarrow> repo_config \<Rightarrow> payload \<Rightarrow> string \<Rightarrow> unit run" where
  "post_warnings env cfg pl diff =
     (case unexpected_branch cfg pl of
        Inl e \<Rightarrow> ([], Inl e)
      | Inr surprise \<Rightarrow>
          let warnings =
                (case surprise of
                   None \<Rightarrow> []
                 | Some (expected, actual) \<Rightarrow>
                     [''Pull requests are usually filed against the '' @ expected
                        @ '' branch for this repo, but this one is against '' @ actual
                        @ ''. Please double check that you specified the right target!''])
                @ (if modifies_submodule diff then [''These commits modify **submodules**.'']
                   else [])
          in if warnings \<noteq> [] then
               post_comment env WarningComment
                 ('':warning: **Warning** :warning:\<newline>\<newline>''
                    @ join ''\<newline>'' (map (\<lambda>x. ''* '' @ x) warnings))
             else ([], Inr ()))"

text \<open>\<^verbatim>\<open>add_labels\<close> under the test of line 396; no exception is caught here.\<close>

definition add_labels :: "environment \<Rightarrow> repo_config \<Rightarrow> unit run" where
  "add_labels env cfg =
     (case cfg_new_pr_labels cfg of
        None \<Rightarrow> ([], Inr ())
      | Some labels \<Rightarrow>
          if labels \<noteq> [] then
            ([AddLabels labels],
             (case gw_labels env of None \<Rightarrow> Inr () | Some code \<Rightarrow> Inl (HTTPError code)))
          else ([], Inr ()))"

text \<open>
  Lines 369 to 377: the reviewer named in the body, or else the chosen one, with
  \<^verbatim>\<open>post_msg\<close>. \<^verbatim>\<open>if not reviewer\<close> holds for \<^verbatim>\<open>None\<close> and for the empty string.
  \<^verbatim>\<open>choose_reviewer\<close> reads \<^verbatim>\<open>_global.json\<close> after \<^verbatim>\<open>self.repo_config['groups']\<close>.
\<close>

definition select_reviewer ::
  "environment \<Rightarrow> repo_config \<Rightarrow> payload \<Rightarrow> string \<Rightarrow> (string option \<times> bool) run" where
  "select_reviewer env cfg pl diff =
     (let reviewer = find_reviewer (pr_body pl) in
      if reviewer = None \<or> reviewer = Some [] then
        ((if cfg_groups cfg = None then [] else [LoadGlobalConfig]),
         (case choose_reviewer cfg (env_global_groups env) diff (pr_author pl) (env_random_draw env) of
            Inl e \<Rightarrow> Inl e
          | Inr chosen \<Rightarrow> Inr (chosen, True)))
      else ([], Inr (reviewer, False)))"

text \<open>Lines 367 to 392, the body of \<^verbatim>\<open>if not self.payload['pull_request', 'assignees']\<close>.\<close>

definition assign :: "environment \<Rightarrow> repo_config \<Rightarrow> payload \<Rightarrow> string \<Rightarrow> unit run" where
  "assign env cfg pl diff =
     bind (select_reviewer env cfg pl diff) (\<lambda>(reviewer, post_msg).
     bind ([], get_to_mention cfg diff) (\<lambda>to_mention.
     bind (set_assignee env reviewer to_mention (env_integration_user env) (pr_head_sha pl)) (\<lambda>_.
     bind (is_new_contributor env pl) (\<lambda>new_contributor.
       if new_contributor then post_comment env WelcomeComment (welcome_msg cfg reviewer)
       else if post_msg then
         post_comment env ReviewComment (review_msg reviewer (pr_author pl))
       else ([], Inr ())))))"

definition new_pr :: "environment \<Rightarrow> repo_config \<Rightarrow> payload \<Rightarrow> unit run" where
  "new_pr env cfg pl =
     bind ([FetchDiff], (case gw_diff env of Inl code \<Rightarrow> Inl (HTTPError code) | Inr d \<Rightarrow> Inr d))
       (\<lambda>diff.
     bind (if pr_assignees pl = [] then assign env cfg pl diff else ([], Inr ())) (\<lambda>_.
     bind (post_warnings env cfg pl diff) (\<lambda>_.
     add_labels env cfg)))"

subsection \<open>The mention comment, as the specification words it\<close>

text \<open>
  Per mention: its optional message, then a \<^verbatim>\<open>cc\<close> line with the reviewers of the mention
  other than \<open>user\<close>.
\<close>

definition cc_block :: "string \<Rightarrow> mention \<Rightarrow> string" where
  "cc_block user mention =
     (case m_message mention of None \<Rightarrow> [] | Some m \<Rightarrow> m @ ''\<newline>\<newline>'')
       @ ''cc '' @ join '','' (filter (\<lambda>x. x \<noteq> user) (m_reviewers mention))"

text \<open>One trailer per distinct command, with the head commit.\<close>

definition command_trailers :: "string \<Rightarrow> mention list \<Rightarrow> string list" where
  "command_trailers sha to_mention =
     map (\<lambda>cmd. cmd @ '' '' @ sha) (first_occurrences (List.map_filter m_command to_mention))"

definition mention_text :: "string \<Rightarrow> string \<Rightarrow> mention list \<Rightarrow> string" where
  "mention_text user sha to_mention =
     join ''\<newline>\<newline>'' (map (cc_block user) to_mention @ command_trailers sha to_mention)"

text \<open>Appending a piece to a text, with the separator when the text is not empty.\<close>

definition sep_append :: "string \<Rightarrow> string \<Rightarrow> string" where
  "sep_append message piece =
     (if length message > 0 then message @ ''\<newline>\<newline>'' else message) @ piece"

subsection \<open>Facts about dictionaries and strings\<close>

lemma split_str_not_Nil: "split_str c s \<noteq> []"
  by (induction s) (auto split: list.splits)

lemma keys_dict_set: "keys (dict_set d k v) = insert k (keys d)"
  by (induction d k v rule: dict_set.induct) (auto simp: keys_def)

lemma map_fst_dict_set: "k \<in> keys d \<Longrightarrow> map fst (dict_set d k v) = map fst d"
  by (induction d k v rule: dict_set.induct) (auto simp: keys_def)

lemma map_of_None_keys: "map_of d k = None \<longleftrightarrow> k \<notin> keys d"
  by (simp add: keys_def map_of_eq_None_iff)

lemma set_dict_set: "set (dict_set d k v) \<subseteq> insert (k, v) (set d)"
  by (induction d k v rule: dict_set.induct) auto

subsection \<open>The largest count\<close>



subsection \<open>The scan counts the added lines of each named directory\<close>
































subsection \<open>The winning directory\<close>





subsection \<open>Headers with a short path\<close>

lemma split_str_no_sep: "w \<in> set (split_str c s) \<Longrightarrow> c \<notin> set w"
proof (induction s arbitrary: w)
  case Nil
  then show ?case by simp
next
  case (Cons x xs)
  then show ?case
    by (cases "split_str c xs") (auto split: if_splits)
qed

lemma header_dir_single:
  assumes "header_parts line = [seg]"
  shows "header_dir line = Some seg"
proof -
  have "seg \<in> set (split_str (CHR ''/'') (drop (nat (find_str line '' b/'' + 3)) line))"
    using assms by (simp add: header_parts_def)
  then have ns: "CHR ''/'' \<notin> set seg" by (rule split_str_no_sep)
  have 1: "\<not> startswith seg ''src/librustc''"
  proof
    assume "startswith seg ''src/librustc''"
    then obtain r where "seg = ''src/librustc'' @ r" by (auto simp: startswith_def prefix_def)
    then show False using ns by simp
  qed
  have 2: "seg \<noteq> ''src/test''" using ns by auto
  show ?thesis using assms 1 2 by (simp add: header_dir_def)
qed

text \<open>
  Claim C6, as stated, fails: a header whose path has one segment makes that segment the
  current directory, and the next added line is counted for it. Here the path is
  \<^verbatim>\<open>README\<close> and the tally ends with one added line for the directory \<^verbatim>\<open>README\<close>.
\<close>

theorem single_segment_counterexample:
  "length (header_parts ''diff --git a/README b/README'') < 2 \<and>
   scan_lines ([], None) [''diff --git a/README b/README'', ''+x'']
     = Inr ([(''README'', 1)], Some ''README'') \<and>
   tally ''diff --git a/README b/README\<newline>+x'' = Inr [(''README'', 1)]"
  by code_simp

text \<open>
  Claim C6, amended. A header line whose path has fewer than two segments never raises.
  Its path is then a single segment, which becomes \<^verbatim>\<open>cur_dir\<close>. When that segment is empty
  the tally is unchanged by the header and by a following added line: the line is
  attributed to no directory. When it is not empty the segment is a key of the tally and a
  following added line increments its count, again without raising.
\<close>

theorem short_header_attribution:
  assumes "startswith line ''diff --git ''" and "length (header_parts line) < 2"
    and "\<not> startswith added ''diff --git ''" and "\<not> startswith added ''+++''"
    and "startswith added ''+''"
  shows "\<exists>seg counts'. header_parts line = [seg] \<and>
           scan_line (counts, cur_dir) line = Inr (counts', Some seg) \<and>
           (if seg = [] then counts' = counts \<and>
                             scan_line (counts', Some seg) added = Inr (counts', Some seg)
            else \<exists>n. map_of counts' seg = Some n \<and>
                     scan_line (counts', Some seg) added
                       = Inr (dict_set counts' seg (n + 1), Some seg))"
proof -
  have "header_parts line \<noteq> []" by (simp add: header_parts_def split_str_not_Nil)
  then obtain seg where seg: "header_parts line = [seg]"
    using assms(2) by (cases "header_parts line") auto
  have hd: "header_dir line = Some seg" using seg by (rule header_dir_single)
  show ?thesis
  proof (cases "seg = []")
    case True
    then have "scan_line (counts, cur_dir) line = Inr (counts, Some seg)"
      using assms(1) hd by (simp add: scan_line_def)
    moreover have "scan_line (counts, Some seg) added = Inr (counts, Some seg)"
      using True assms(3) by (simp add: scan_line_def)
    ultimately show ?thesis using seg True by simp
  next
    case False
    define counts' where "counts' = (if seg \<notin> keys counts then counts @ [(seg, 0)] else counts)"
    have s: "scan_line (counts, cur_dir) line = Inr (counts', Some seg)"
      using assms(1) hd False by (simp add: scan_line_def counts'_def)
    have "seg \<in> keys counts'" by (auto simp: counts'_def keys_def)
    then obtain n where n: "map_of counts' seg = Some n"
      using map_of_None_keys[of counts' seg] by (cases "map_of counts' seg") auto
    have "scan_line (counts', Some seg) added = Inr (dict_set counts' seg (n + 1), Some seg)"
      using False assms(3,4,5) n by (simp add: scan_line_def)
    then show ?thesis using seg s n False by simp
  qed
qed

theorem short_header_attribution_witness:
  "startswith ''diff --git a/README b/README'' ''diff --git '' \<and>
   length (header_parts ''diff --git a/README b/README'') < 2 \<and>
   \<not> startswith ''+x'' ''diff --git '' \<and> \<not> startswith ''+x'' ''+++'' \<and> startswith ''+x'' ''+'' \<and>
   (\<exists>seg counts'. header_parts ''diff --git a/README b/README'' = [seg] \<and>
           scan_line ([], None) ''diff --git a/README b/README'' = Inr (counts', Some seg) \<and>
           (if seg = [] then counts' = [] \<and>
                             scan_line (counts', Some seg) ''+x'' = Inr (counts', Some seg)
            else \<exists>n. map_of counts' seg = Some n \<and>
                     scan_line (counts', Some seg) ''+x''
                       = Inr (dict_set counts' seg (n + 1), Some seg)))"
proof -
  have 1: "startswith ''diff --git a/README b/README'' ''diff --git ''" by code_simp
  have 2: "length (header_parts ''diff --git a/README b/README'') < 2" by code_simp
  have 3: "\<not> startswith ''+x'' ''diff --git ''" by code_simp
  have 4: "\<not> startswith ''+x'' ''+++''" by code_simp
  have 5: "startswith ''+x'' ''+''" by code_simp
  show ?thesis
    using short_header_attribution[OF 1 2 3 4 5, of "[]" None] 1 2 3 4 5 by blast
qed

subsection \<open>The branches of the expansion loop\<close>

lemma map_of_Some_keys: "map_of d k = Some v \<Longrightarrow> k \<in> keys d"
  by (auto simp: keys_def dest: map_of_SomeD intro: rev_image_eqI)

lemma keys_map_of: "k \<in> keys d \<Longrightarrow> \<exists>v. map_of d k = Some v"
  using map_of_None_keys[of d k] by (cases "map_of d k") auto

declare expand_loop.simps [simp del]

lemma expand_loop_Nil: "expand_loop groups pk [] reviewers seen = ([], Inr reviewers)"
  by (simp add: expand_loop.simps)

lemma expand_loop_user:
  "startswith p ''@'' \<Longrightarrow>
   expand_loop groups pk (rest @ [p]) reviewers seen
     = expand_loop groups pk rest (reviewers @ [tl p]) seen"
  by (subst expand_loop.simps) simp

lemma expand_loop_unknown:
  "\<not> startswith p ''@'' \<Longrightarrow> map_of groups p = None \<Longrightarrow>
   expand_loop groups pk (rest @ [p]) reviewers seen = expand_loop groups pk rest reviewers seen"
  by (subst expand_loop.simps) simp

lemma expand_loop_seen:
  "\<not> startswith p ''@'' \<Longrightarrow> map_of groups p = Some members \<Longrightarrow> p \<in> seen \<Longrightarrow>
   expand_loop groups pk (rest @ [p]) reviewers seen
     = ([], Inl (AssertionError (''group '' @ p @ '' refers to itself'')))"
  by (subst expand_loop.simps) simp

lemma expand_loop_group:
  "\<not> startswith p ''@'' \<Longrightarrow> map_of groups p = Some members \<Longrightarrow> p \<notin> seen \<Longrightarrow>
   expand_loop groups pk (rest @ [p]) reviewers seen
     = (p # fst (expand_loop groups pk (rest @ (if p = pk then rest else members)) reviewers
                   (insert p seen)),
        snd (expand_loop groups pk (rest @ (if p = pk then rest else members)) reviewers
                   (insert p seen)))"
  by (subst expand_loop.simps) (simp add: case_prod_beta)

text \<open>An induction rule over the states of the loop, one case per branch.\<close>

lemma expand_induct [case_names Nil user unknown seen group]:
  assumes "\<And>groups pk reviewers seen. P groups pk [] reviewers seen"
    and "\<And>groups pk rest p reviewers seen. startswith p ''@''
            \<Longrightarrow> P groups pk rest (reviewers @ [tl p]) seen
            \<Longrightarrow> P groups pk (rest @ [p]) reviewers seen"
    and "\<And>groups pk rest p reviewers seen. \<not> startswith p ''@'' \<Longrightarrow> map_of groups p = None
            \<Longrightarrow> P groups pk rest reviewers seen \<Longrightarrow> P groups pk (rest @ [p]) reviewers seen"
    and "\<And>groups pk rest p members reviewers seen. \<not> startswith p ''@''
            \<Longrightarrow> map_of groups p = Some members
            \<Longrightarrow> p \<in> seen \<Longrightarrow> P groups pk (rest @ [p]) reviewers seen"
    and "\<And>groups pk rest p members reviewers seen. \<not> startswith p ''@''
            \<Longrightarrow> map_of groups p = Some members \<Longrightarrow> p \<notin> seen
            \<Longrightarrow> P groups pk (rest @ (if p = pk then rest else members)) reviewers (insert p seen)
            \<Longrightarrow> P groups pk (rest @ [p]) reviewers seen"
  shows "P groups pk potential reviewers seen"
proof (induction groups pk potential reviewers seen rule: expand_loop.induct)
  case (1 groups pk potential reviewers seen)
  show ?case
  proof (cases "potential = []")
    case True
    then show ?thesis using assms(1) by simp
  next
    case False
    then obtain rest p where pot: "potential = rest @ [p]"
      by (metis append_butlast_last_id)
    then have lp: "last potential = p" "butlast potential = rest" by simp_all
    show ?thesis
    proof (cases "startswith p ''@''")
      case True
      then show ?thesis using "1.IH"(1)[OF False lp(1)[symmetric] lp(2)[symmetric]] assms(2) pot
        by simp
    next
      case nu: False
      show ?thesis
      proof (cases "map_of groups p")
        case None
        then show ?thesis
          using "1.IH"(2)[OF False lp(1)[symmetric] lp(2)[symmetric] nu] assms(3) nu pot by simp
      next
        case (Some members)
        show ?thesis
        proof (cases "p \<in> seen")
          case True
          then show ?thesis using assms(4)[OF nu Some] pot by simp
        next
          case ns: False
          then show ?thesis
            using "1.IH"(3)[OF False lp(1)[symmetric] lp(2)[symmetric] nu Some ns]
              assms(5)[OF nu Some ns] pot by simp
        qed
      qed
    qed
  qed
qed

subsection \<open>Seen groups\<close>






subsection \<open>The groups reached from the work list\<close>

lemma refers_refs_of: "(a, b) \<in> refers groups \<longleftrightarrow> b \<in> set (refs_of groups a)"
  by (cases "map_of groups a") (auto simp: refers_def refs_of_def group_refs_def)

lemma rtrancl_Image_unfold: "R\<^sup>* `` A = A \<union> R\<^sup>* `` (R `` A)"
proof
  show "R\<^sup>* `` A \<subseteq> A \<union> R\<^sup>* `` (R `` A)"
    by (auto elim: converse_rtranclE)
  show "A \<union> R\<^sup>* `` (R `` A) \<subseteq> R\<^sup>* `` A"
    by (auto intro: converse_rtrancl_into_rtrancl)
qed

lemma reached_append: "reached groups (xs @ ys) = reached groups xs \<union> reached groups ys"
  by (auto simp: reached_def group_refs_def)

lemma reached_other: "\<not> group_ref groups p \<Longrightarrow> reached groups [p] = {}"
  by (simp add: reached_def group_refs_def)

lemma reached_group:
  assumes "group_ref groups p" "map_of groups p = Some members"
  shows "reached groups [p] = insert p (reached groups members)"
proof -
  have "refers groups `` {p} = set (group_refs groups members)"
    using assms(2) by (auto simp: refers_refs_of refs_of_def)
  then show ?thesis
    using assms(1) rtrancl_Image_unfold[of "refers groups" "{p}"]
    by (simp add: reached_def group_refs_def)
qed

lemma reached_pool: "t \<in> set (group_refs groups pool) \<Longrightarrow> t \<in> reached groups pool"
  by (auto simp: reached_def)

lemma reached_step:
  "h \<in> reached groups pool \<Longrightarrow> g \<in> set (refs_of groups h) \<Longrightarrow> g \<in> reached groups pool"
  by (auto simp: reached_def refers_refs_of[symmetric] intro: rtrancl_into_rtrancl)

lemma reached_cases:
  assumes "g \<in> reached groups pool"
  shows "g \<in> set (group_refs groups pool) \<or> (\<exists>h\<in>reached groups pool. g \<in> set (refs_of groups h))"
proof -
  from assms obtain t where t: "t \<in> set (group_refs groups pool)" "(t, g) \<in> (refers groups)\<^sup>*"
    by (auto simp: reached_def)
  from t(2) show ?thesis
  proof (cases rule: rtranclE)
    case base
    then show ?thesis using t(1) by simp
  next
    case (step h)
    then have "h \<in> reached groups pool" using t(1) by (auto simp: reached_def)
    then show ?thesis using step(2) by (auto simp: refers_refs_of)
  qed
qed

lemma reached_closed:
  assumes "set (group_refs groups pool) \<subseteq> S" and "\<forall>g\<in>S. set (refs_of groups g) \<subseteq> S"
  shows "reached groups pool \<subseteq> S"
proof
  fix g assume "g \<in> reached groups pool"
  then obtain t where t: "t \<in> set (group_refs groups pool)" "(t, g) \<in> (refers groups)\<^sup>*"
    by (auto simp: reached_def)
  from t(2) have "t \<in> S \<Longrightarrow> g \<in> S"
    by (induction rule: rtrancl_induct) (use assms(2) in \<open>auto simp: refers_refs_of\<close>)
  then show "g \<in> S" using t(1) assms(1) by blast
qed

subsection \<open>Cycles reached from the work list\<close>

lemma cycle_raises:
  "pk \<in> seen \<or> pk \<notin> reached groups potential \<Longrightarrow> t \<in> set potential \<Longrightarrow> group_ref groups t \<Longrightarrow> (t, g) \<in> (refers groups)\<^sup>* \<Longrightarrow>
   g \<in> seen \<or> (g, g) \<in> (refers groups)\<^sup>+ \<Longrightarrow>
   \<exists>g'. expand groups pk potential reviewers seen = Inl (cycle_error g')"
proof (induction groups pk potential reviewers seen arbitrary: t g rule: expand_induct)
  case (Nil groups pk reviewers seen)
  then show ?case by simp
next
  case (user groups pk rest p reviewers seen)
  then have "t \<in> set rest" by (auto simp: group_ref_def)
  moreover have "pk \<in> seen \<or> pk \<notin> reached groups rest"
    using user.prems(1) by (auto simp: reached_append)
  ultimately have "\<exists>g'. expand groups pk rest (reviewers @ [tl p]) seen = Inl (cycle_error g')"
    using user.IH[of t g] user.prems(3,4,5) by blast
  then
  show ?case using user.hyps by (simp add: expand_def expand_loop_user)
next
  case (unknown groups pk rest p reviewers seen)
  then have "t \<in> set rest" by (auto simp: group_ref_def map_of_None_keys)
  moreover have "pk \<in> seen \<or> pk \<notin> reached groups rest"
    using unknown.prems(1) by (auto simp: reached_append)
  ultimately have "\<exists>g'. expand groups pk rest reviewers seen = Inl (cycle_error g')"
    using unknown.IH[of t g] unknown.prems(3,4,5) by blast
  then
  show ?case using unknown.hyps by (simp add: expand_def expand_loop_unknown)
next
  case (seen groups pk rest p members reviewers seen)
  then show ?case by (auto simp: expand_def expand_loop_seen cycle_error_def)
next
  case (group groups pk rest p members reviewers seen)
  have gp: "group_ref groups p" using group.hyps by (simp add: group_ref_def map_of_Some_keys)
  have Rp: "reached groups (rest @ [p]) = insert p (reached groups (rest @ members))"
    using reached_group[OF gp group.hyps(2)] by (simp add: reached_append)
  have ppk: "p \<noteq> pk" using group.prems(1) group.hyps(3) Rp by auto
  have eq: "expand groups pk (rest @ [p]) reviewers seen
              = expand groups pk (rest @ members) reviewers (insert p seen)"
    using group.hyps ppk by (simp add: expand_def expand_loop_group)
  have pk': "pk \<in> insert p seen \<or>
             pk \<notin> reached groups (rest @ (if p = pk then rest else members))"
    using group.prems(1) Rp ppk by auto
  have step: "\<And>q g'. q \<in> set members \<Longrightarrow> group_ref groups q \<Longrightarrow> (q, g') \<in> (refers groups)\<^sup>* \<Longrightarrow>
       g' \<in> insert p seen \<or> (g', g') \<in> (refers groups)\<^sup>+ \<Longrightarrow>
       \<exists>e. expand groups pk (rest @ members) reviewers (insert p seen) = Inl (cycle_error e)"
  proof -
    fix q g' assume "q \<in> set members" "group_ref groups q" "(q, g') \<in> (refers groups)\<^sup>*"
       "g' \<in> insert p seen \<or> (g', g') \<in> (refers groups)\<^sup>+"
    then show "\<exists>e. expand groups pk (rest @ members) reviewers (insert p seen) = Inl (cycle_error e)"
      using group.IH[of q g'] pk' ppk by simp
  qed
  have succ: "\<And>q. (p, q) \<in> refers groups \<Longrightarrow> q \<in> set members \<and> group_ref groups q"
    using group.hyps(2) by (auto simp: refers_def)
  show ?case
  proof (cases "t \<in> set rest")
    case True
    then have "t \<in> set (rest @ (if p = pk then rest else members))" by simp
    from group.IH[OF pk' this group.prems(3,4)] group.prems(5)
    show ?thesis using eq ppk by auto
  next
    case False
    then have tp: "t = p" using group.prems(2) by simp
    show ?thesis
    proof (cases "g = p")
      case True
      then have "(p, p) \<in> (refers groups)\<^sup>+" using group.prems(5) group.hyps(3) by simp
      then obtain q where q: "(p, q) \<in> refers groups" "(q, p) \<in> (refers groups)\<^sup>*"
        by (meson tranclD)
      from step[of q p] succ[OF q(1)] q(2) show ?thesis using eq by simp
    next
      case ne: False
      have "(p, g) \<in> (refers groups)\<^sup>*" using group.prems(4) tp by simp
      then obtain q where q: "(p, q) \<in> refers groups" "(q, g) \<in> (refers groups)\<^sup>*"
        using ne by (auto elim: converse_rtranclE)
      from step[of q g] succ[OF q(1)] q(2) group.prems(5) show ?thesis using eq by auto
    qed
  qed
qed

subsection \<open>Self-referencing groups\<close>

text \<open>
  What the loop gets right. The pool is the list of \<^verbatim>\<open>all\<close> extended with the aliases of
  the winning directory or, when that is empty, the list of \<^verbatim>\<open>core\<close>. When the pool is not
  the fallback list, or does not reach \<^verbatim>\<open>core\<close>, and it reaches a group that lies on a
  cycle, the expansion raises the assertion error \<^verbatim>\<open>group ... refers to itself\<close>.
\<close>

lemma reached_cycle_raises:
  assumes "map_of groups ''all'' = Some all"
    and "extended all dirs winner \<noteq> [] \<and> pool = extended all dirs winner \<or>
         extended all dirs winner = [] \<and> map_of groups ''core'' = Some pool"
    and "extended all dirs winner \<noteq> [] \<or> ''core'' \<notin> reached groups pool"
    and "t \<in> set pool" and "group_ref groups t"
    and "(t, g) \<in> (refers groups)\<^sup>*" and "(g, g) \<in> (refers groups)\<^sup>+"
  shows "\<exists>g'. expand_potential groups dirs winner = Inl (cycle_error g')"
proof -
  obtain pk where pk: "pk = (if extended all dirs winner \<noteq> [] then ''all'' else ''core'')"
    by simp
  have ne: "pool \<noteq> []" using assms(4) by auto
  have ep: "expand_potential groups dirs winner = expand groups pk pool [] {''all''}"
    using assms(1,2) pk by (auto simp: expand_potential_def)
  have "pk \<in> {''all''} \<or> pk \<notin> reached groups pool" using assms(3) pk by auto
  from cycle_raises[OF this assms(4,5,6), of "[]"] assms(7) show ?thesis using ep by simp
qed

text \<open>
  Claim C3 is what the specification asks for, and the code misses it on the fallback pool.
  After line 284 the work list is the very list stored under \<^verbatim>\<open>core\<close>, and \<^verbatim>\<open>seen\<close> holds
  only \<^verbatim>\<open>all\<close>: when the alias \<^verbatim>\<open>core\<close> is popped, \<^verbatim>\<open>core\<close> is not in \<^verbatim>\<open>seen\<close>, and
  \<^verbatim>\<open>groups['core']\<close> is what is left of the work list, not the configured members. With
  \<^verbatim>\<open>all\<close> empty, \<^verbatim>\<open>core\<close> listing \<^verbatim>\<open>x\<close> and \<^verbatim>\<open>x\<close> listing \<^verbatim>\<open>core\<close>, the chain from \<^verbatim>\<open>core\<close>
  comes back to \<^verbatim>\<open>core\<close>; the expansion ends normally with no reviewer, and
  \<^verbatim>\<open>choose_reviewer\<close> returns \<^verbatim>\<open>None\<close> for every diff, author and draw. The same two groups
  reached from \<^verbatim>\<open>all\<close> raise the assertion error. A group \<^verbatim>\<open>core\<close> that lists itself is
  accepted as well, and its user is returned twice.
\<close>

theorem fallback_cycle_not_detected:
  "(''core'', ''core'') \<in> (refers [(''all'', []), (''core'', [''x'']), (''x'', [''core''])])\<^sup>+ \<and>
   expand_potential [(''all'', []), (''core'', [''x'']), (''x'', [''core''])] [] None = Inr [] \<and>
   choose_reviewer
      \<lparr>cfg_dirs = None, cfg_groups = Some [(''all'', []), (''core'', [''x'']), (''x'', [''core''])],
        cfg_mentions = None, cfg_contributing = None, cfg_expected_branch = None,
        cfg_new_pr_labels = None\<rparr>
      [] diff author rnd = Inr None \<and>
   expand_potential [(''all'', [''x'']), (''core'', [''x'']), (''x'', [''core''])] [] None = Inl (cycle_error ''x'') \<and>
   expand_potential [(''all'', []), (''core'', [''@a'', ''core''])] [] None = Inr [''a'', ''a'']"
proof -
  have cx: "(''core'', ''x'') \<in> refers [(''all'', []), (''core'', [''x'']), (''x'', [''core''])]"
    by (simp add: refers_def group_ref_def keys_def startswith_def)
  have xc: "(''x'', ''core'') \<in> refers [(''all'', []), (''core'', [''x'']), (''x'', [''core''])]"
    by (simp add: refers_def group_ref_def keys_def startswith_def)
  have 1: "(''core'', ''core'') \<in> (refers [(''all'', []), (''core'', [''x'']), (''x'', [''core''])])\<^sup>+"
    using cx xc by (rule trancl_into_trancl2[OF _ r_into_trancl])
  have 2: "expand_potential [(''all'', []), (''core'', [''x'']), (''x'', [''core''])] [] None = Inr []" by code_simp
  have 3: "choose_reviewer
      \<lparr>cfg_dirs = None, cfg_groups = Some [(''all'', []), (''core'', [''x'']), (''x'', [''core''])],
        cfg_mentions = None, cfg_contributing = None, cfg_expected_branch = None,
        cfg_new_pr_labels = None\<rparr>
      [] diff author rnd = Inr None"
    using 2 by (simp add: choose_reviewer_def get_dirs_def most_changed_def)
  have 4: "expand_potential [(''all'', [''x'']), (''core'', [''x'']), (''x'', [''core''])] [] None = Inl (cycle_error ''x'')" by code_simp
  have 5: "expand_potential [(''all'', []), (''core'', [''@a'', ''core''])] [] None = Inr [''a'', ''a'']" by code_simp
  show ?thesis using 1 2 3 4 5 by blast
qed

subsection \<open>Structures in which no reached group is referenced twice\<close>

lemma referenced_once_pop_other:
  "\<not> group_ref groups p \<Longrightarrow>
   referenced_once groups (rest @ [p]) seen \<longleftrightarrow> referenced_once groups rest seen"
  by (simp add: referenced_once_def reached_append reached_other group_refs_def)

lemma referenced_once_expand:
  assumes g: "group_ref groups p" and m: "map_of groups p = Some members" and ns: "p \<notin> seen"
  shows "referenced_once groups (rest @ [p]) seen
           \<longleftrightarrow> referenced_once groups (rest @ members) (insert p seen)"
proof -
  let ?Rn = "reached groups (rest @ members)"
  let ?Q = "group_refs groups rest"
  let ?M = "refs_of groups p"
  have Rp: "reached groups (rest @ [p]) = insert p ?Rn"
    using reached_group[OF g m] by (simp add: reached_append)
  have Pp: "group_refs groups (rest @ [p]) = ?Q @ [p]" using g by (simp add: group_refs_def)
  have M: "?M = group_refs groups members" using m by (simp add: refs_of_def)
  have Pn: "group_refs groups (rest @ members) = ?Q @ ?M" by (simp add: M group_refs_def)
  have in_pool: "\<And>t. t \<in> set ?Q \<or> t \<in> set ?M \<Longrightarrow> t \<in> ?Rn"
    using reached_pool[of _ groups "rest @ members"] unfolding Pn by auto
  show ?thesis
  proof
    assume old: "referenced_once groups (rest @ [p]) seen"
    have A: "distinct (?Q @ [p])" using old unfolding referenced_once_def Pp by blast
    have B: "\<And>g. g = p \<or> g \<in> ?Rn \<Longrightarrow>
               distinct (refs_of groups g) \<and> set (refs_of groups g) \<inter> set (?Q @ [p]) = {}"
      using old unfolding referenced_once_def Rp Pp by blast
    have C: "\<And>g h. g = p \<or> g \<in> ?Rn \<Longrightarrow> h = p \<or> h \<in> ?Rn \<Longrightarrow> g \<noteq> h \<Longrightarrow>
               set (refs_of groups g) \<inter> set (refs_of groups h) = {}"
      using old unfolding referenced_once_def Rp by blast
    have D: "insert p ?Rn \<inter> seen = {}" using old unfolding referenced_once_def Rp by blast
    have pn: "p \<notin> ?Rn"
    proof
      assume "p \<in> ?Rn"
      from reached_cases[OF this] consider "p \<in> set ?Q" | "p \<in> set ?M"
        | h where "h \<in> ?Rn" "p \<in> set (refs_of groups h)"
        unfolding Pn by auto
      then show False
      proof cases
        case 1
        then show ?thesis using A by simp
      next
        case 2
        then show ?thesis using B[of p] by auto
      next
        case 3
        then show ?thesis using B[of h] by auto
      qed
    qed
    have A': "distinct (?Q @ ?M)" using A B[of p] by auto
    have B': "\<forall>g\<in>?Rn. distinct (refs_of groups g) \<and>
                set (refs_of groups g) \<inter> set (?Q @ ?M) = {}"
    proof
      fix g assume gr: "g \<in> ?Rn"
      then have "g \<noteq> p" using pn by blast
      then have "set (refs_of groups g) \<inter> set ?M = {}" using C[of g p] gr by simp
      moreover have "distinct (refs_of groups g)" "set (refs_of groups g) \<inter> set ?Q = {}"
        using B[of g] gr by auto
      ultimately show "distinct (refs_of groups g) \<and>
                set (refs_of groups g) \<inter> set (?Q @ ?M) = {}" by auto
    qed
    have C': "\<forall>g\<in>?Rn. \<forall>h\<in>?Rn. g \<noteq> h \<longrightarrow>
                set (refs_of groups g) \<inter> set (refs_of groups h) = {}"
      using C by blast
    have D': "?Rn \<inter> insert p seen = {}" using D pn by blast
    show "referenced_once groups (rest @ members) (insert p seen)"
      unfolding referenced_once_def Pn using A' B' C' D' by blast
  next
    assume new: "referenced_once groups (rest @ members) (insert p seen)"
    have A': "distinct (?Q @ ?M)" using new unfolding referenced_once_def Pn by blast
    have B': "\<And>g. g \<in> ?Rn \<Longrightarrow>
                distinct (refs_of groups g) \<and> set (refs_of groups g) \<inter> set (?Q @ ?M) = {}"
      using new unfolding referenced_once_def Pn by blast
    have C': "\<And>g h. g \<in> ?Rn \<Longrightarrow> h \<in> ?Rn \<Longrightarrow> g \<noteq> h \<Longrightarrow>
                set (refs_of groups g) \<inter> set (refs_of groups h) = {}"
      using new unfolding referenced_once_def by blast
    have D': "?Rn \<inter> insert p seen = {}" using new unfolding referenced_once_def by blast
    have pn: "p \<notin> ?Rn" using D' by blast
    have pQ: "p \<notin> set ?Q" and pM: "p \<notin> set ?M" using in_pool[of p] pn by auto
    have pR: "\<And>h. h \<in> ?Rn \<Longrightarrow> p \<notin> set (refs_of groups h)"
      using reached_step[of _ groups "rest @ members" p] pn by blast
    have A: "distinct (?Q @ [p])" using A' pQ by simp
    have B: "\<forall>g\<in>insert p ?Rn. distinct (refs_of groups g) \<and>
                set (refs_of groups g) \<inter> set (?Q @ [p]) = {}"
    proof
      fix g assume "g \<in> insert p ?Rn"
      then consider "g = p" | "g \<in> ?Rn" by blast
      then show "distinct (refs_of groups g) \<and> set (refs_of groups g) \<inter> set (?Q @ [p]) = {}"
      proof cases
        case 1
        then show ?thesis using A' pM by auto
      next
        case 2
        then show ?thesis using B'[of g] pR[of g] by auto
      qed
    qed
    have C: "\<forall>g\<in>insert p ?Rn. \<forall>h\<in>insert p ?Rn. g \<noteq> h \<longrightarrow>
                set (refs_of groups g) \<inter> set (refs_of groups h) = {}"
    proof (intro ballI impI)
      fix g h assume gh: "g \<in> insert p ?Rn" "h \<in> insert p ?Rn" "g \<noteq> h"
      then consider "g \<in> ?Rn" "h \<in> ?Rn" | "g = p" "h \<in> ?Rn" | "h = p" "g \<in> ?Rn" by blast
      then show "set (refs_of groups g) \<inter> set (refs_of groups h) = {}"
      proof cases
        case 1
        then show ?thesis using C'[of g h] gh(3) by simp
      next
        case 2
        then show ?thesis using B'[of h] by auto
      next
        case 3
        then show ?thesis using B'[of g] by auto
      qed
    qed
    have D: "insert p ?Rn \<inter> seen = {}" using D' ns by blast
    show "referenced_once groups (rest @ [p]) seen"
      unfolding referenced_once_def Rp Pp using A B C D by blast
  qed
qed

lemma referenced_once_not_seen:
  "referenced_once groups (rest @ [p]) seen \<Longrightarrow> group_ref groups p \<Longrightarrow> p \<notin> seen"
  using reached_pool[of p groups "rest @ [p]"]
  by (auto simp: referenced_once_def group_refs_def)

text \<open>
  The expansion ends normally exactly on these structures, as long as the key \<open>pk\<close> of the
  shared list is in \<open>seen\<close> or is not reached.
\<close>

lemma expand_normal_iff:
  "pk \<in> seen \<or> pk \<notin> reached groups potential \<Longrightarrow>
   (\<exists>rs. expand groups pk potential reviewers seen = Inr rs)
     \<longleftrightarrow> referenced_once groups potential seen"
proof (induction groups pk potential reviewers seen rule: expand_induct)
  case (Nil groups pk reviewers seen)
  show ?case
    by (simp add: expand_def expand_loop_Nil referenced_once_def reached_def group_refs_def)
next
  case (user groups pk rest p reviewers seen)
  have ng: "\<not> group_ref groups p" using user.hyps by (simp add: group_ref_def)
  have "pk \<in> seen \<or> pk \<notin> reached groups rest"
    using user.prems ng by (simp add: reached_append reached_other)
  from user.IH[OF this] show ?case
    using user.hyps ng by (simp add: expand_def expand_loop_user referenced_once_pop_other)
next
  case (unknown groups pk rest p reviewers seen)
  have ng: "\<not> group_ref groups p" using unknown.hyps by (simp add: group_ref_def map_of_None_keys)
  have "pk \<in> seen \<or> pk \<notin> reached groups rest"
    using unknown.prems ng by (simp add: reached_append reached_other)
  from unknown.IH[OF this] show ?case
    using unknown.hyps ng by (simp add: expand_def expand_loop_unknown referenced_once_pop_other)
next
  case (seen groups pk rest p members reviewers seen)
  have g: "group_ref groups p" using seen.hyps by (simp add: group_ref_def map_of_Some_keys)
  have "\<not> referenced_once groups (rest @ [p]) seen"
    using referenced_once_not_seen[OF _ g] seen.hyps(3) by blast
  then show ?case using seen.hyps by (simp add: expand_def expand_loop_seen)
next
  case (group groups pk rest p members reviewers seen)
  have g: "group_ref groups p" using group.hyps by (simp add: group_ref_def map_of_Some_keys)
  have Rp: "reached groups (rest @ [p]) = insert p (reached groups (rest @ members))"
    using reached_group[OF g group.hyps(2)] by (simp add: reached_append)
  have ppk: "p \<noteq> pk" using group.prems group.hyps(3) Rp by auto
  have "pk \<in> insert p seen \<or> pk \<notin> reached groups (rest @ (if p = pk then rest else members))"
    using group.prems Rp ppk by auto
  from group.IH[OF this] show ?case
    using group.hyps ppk referenced_once_expand[OF g group.hyps(2,3), of rest]
    by (simp add: expand_def expand_loop_group)
qed

lemma referenced_once_closed:
  assumes "set (group_refs groups pool) \<subseteq> set S"
    and "\<forall>g\<in>set S. set (refs_of groups g) \<subseteq> set S"
    and "distinct (group_refs groups pool)"
    and "\<forall>g\<in>set S. distinct (refs_of groups g) \<and>
                    set (refs_of groups g) \<inter> set (group_refs groups pool) = {}"
    and "\<forall>g\<in>set S. \<forall>h\<in>set S. g \<noteq> h \<longrightarrow>
                    set (refs_of groups g) \<inter> set (refs_of groups h) = {}"
    and "set S \<inter> seen = {}"
  shows "referenced_once groups pool seen"
proof -
  have "reached groups pool \<subseteq> set S" using assms(1,2) by (rule reached_closed)
  then show ?thesis using assms(3-6) unfolding referenced_once_def by blast
qed

text \<open>A pool that is the list of \<open>pk\<close> and satisfies the condition does not reach \<open>pk\<close>.\<close>

lemma referenced_once_own_list:
  assumes "map_of groups pk = Some pool" and "referenced_once groups pool seen"
  shows "pk \<notin> reached groups pool"
proof
  assume r: "pk \<in> reached groups pool"
  have "refs_of groups pk = group_refs groups pool" using assms(1) by (simp add: refs_of_def)
  then have "set (group_refs groups pool) = {}"
    using assms(2) r unfolding referenced_once_def by auto
  then show False using r by (simp add: reached_def)
qed

lemma expand_only_users:
  "expand groups pk potential reviewers seen = Inr rs \<Longrightarrow> r \<in> set rs \<Longrightarrow>
   r \<in> set reviewers \<or> (\<exists>tok \<in> set potential \<union> \<Union> (set ` snd ` set groups). tok = CHR ''@'' # r)"
proof (induction groups pk potential reviewers seen rule: expand_induct)
  case (Nil groups pk reviewers seen)
  then show ?case by (simp add: expand_def expand_loop_Nil)
next
  case (user groups pk rest p reviewers seen)
  from user.hyps obtain u where "p = CHR ''@'' # u" by (auto simp: startswith_def prefix_def)
  then show ?case using user by (auto simp: expand_def expand_loop_user)
next
  case (unknown groups pk rest p reviewers seen)
  then show ?case by (auto simp: expand_def expand_loop_unknown)
next
  case (seen groups pk rest p members reviewers seen)
  then show ?case by (simp add: expand_def expand_loop_seen)
next
  case (group groups pk rest p members reviewers seen)
  have m: "set members \<subseteq> \<Union> (set ` snd ` set groups)"
    using map_of_SomeD[OF group.hyps(2)] by force
  have "expand groups pk (rest @ (if p = pk then rest else members)) reviewers (insert p seen) = Inr rs"
    using group by (simp add: expand_def expand_loop_group)
  from group.IH[OF this group.prems(2)] show ?case using m by (auto split: if_splits)
qed

subsection \<open>Structures without cycles\<close>

text \<open>
  Claim C4, as stated, fails: the guard of line 296 fires on every second visit of a group,
  also when the structure has no cycle. Here \<^verbatim>\<open>x\<close> and \<^verbatim>\<open>y\<close> both list \<^verbatim>\<open>z\<close>; no group
  reaches itself, and the expansion raises the assertion error for \<^verbatim>\<open>z\<close>.
\<close>

theorem diamond_counterexample:
  "acyclic (refers [(''all'', [''x'', ''y'']), (''x'', [''z'']), (''y'', [''z'']), (''z'', [''@a''])]) \<and>
   expand [(''all'', [''x'', ''y'']), (''x'', [''z'']), (''y'', [''z'']), (''z'', [''@a''])]
      ''all'' [''x'', ''y''] [] {''all''} = Inl (cycle_error ''z'') \<and>
   expand_potential [(''all'', [''x'', ''y'']), (''x'', [''z'']), (''y'', [''z'']), (''z'', [''@a''])]
      [] None = Inl (cycle_error ''z'')"
proof -
  let ?G = "[(''all'', [''x'', ''y'']), (''x'', [''z'']), (''y'', [''z'']), (''z'', [''@a''])]"
  let ?f = "\<lambda>s. if s = ''all'' then 3 else if s = ''x'' \<or> s = ''y'' then 2
                 else if s = ''z'' then 1 else (0::nat)"
  have "\<And>a b. (a, b) \<in> refers ?G \<Longrightarrow> ?f b < ?f a"
    by (auto simp: refers_def group_ref_def keys_def startswith_def split: if_splits)
  then have 1: "acyclic (refers ?G)" by (rule acyclicI_order)
  have 2: "expand ?G ''all'' [''x'', ''y''] [] {''all''} = Inl (cycle_error ''z'')" by code_simp
  have 3: "expand_potential ?G [] None = Inl (cycle_error ''z'')" by code_simp
  show ?thesis using 1 2 3 by blast
qed

text \<open>
  Claim C4, amended. The expansion terminates on every group structure (\<open>expand\<close> is a total
  function). The pool is the list of \<^verbatim>\<open>all\<close> extended with the aliases of the winning
  directory or, when that is empty, the list of \<^verbatim>\<open>core\<close>. When every group is referenced at
  most once from the pool and the lists of the groups reached from it, and \<^verbatim>\<open>all\<close> is not
  referenced there, the expansion ends normally, and every element of the resulting list is
  an alias token of the pool or of a group list that starts with \<^verbatim>\<open>@\<close>, with that prefix
  stripped. Groups that the pool does not reach may be referenced any number of times. The
  condition gives up nothing else: when the pool is not the fallback list of \<^verbatim>\<open>core\<close>, or
  does not reach \<^verbatim>\<open>core\<close>, a normal end implies it.
\<close>

theorem referenced_once_expansion_normal:
  assumes "map_of groups ''all'' = Some all"
    and "extended all dirs winner \<noteq> [] \<and> pool = extended all dirs winner \<or>
         extended all dirs winner = [] \<and> map_of groups ''core'' = Some pool"
  shows "(referenced_once groups pool {''all''} \<longrightarrow>
            (\<exists>rs. expand_potential groups dirs winner = Inr rs \<and>
               (\<forall>r\<in>set rs. \<exists>tok \<in> set pool \<union> \<Union> (set ` snd ` set groups).
                                tok = CHR ''@'' # r))) \<and>
         ((\<exists>rs. expand_potential groups dirs winner = Inr rs) \<and>
          (extended all dirs winner \<noteq> [] \<or> ''core'' \<notin> reached groups pool) \<longrightarrow>
            referenced_once groups pool {''all''})"
proof -
  obtain pk where pk: "pk = (if extended all dirs winner \<noteq> [] then ''all'' else ''core'')"
    by simp
  have ep: "expand_potential groups dirs winner = expand groups pk pool [] {''all''}"
    using assms pk by (auto simp: expand_potential_def)
  have 1: "referenced_once groups pool {''all''} \<longrightarrow>
            (\<exists>rs. expand_potential groups dirs winner = Inr rs \<and>
               (\<forall>r\<in>set rs. \<exists>tok \<in> set pool \<union> \<Union> (set ` snd ` set groups).
                                tok = CHR ''@'' # r))"
  proof
    assume ro: "referenced_once groups pool {''all''}"
    have "pk \<in> {''all''} \<or> pk \<notin> reached groups pool"
      using assms(2) pk referenced_once_own_list[OF _ ro, of "''core''"] by auto
    from expand_normal_iff[OF this, of "[]"] ro obtain rs where
      rs: "expand groups pk pool [] {''all''} = Inr rs" by blast
    have "\<forall>r\<in>set rs. \<exists>tok \<in> set pool \<union> \<Union> (set ` snd ` set groups). tok = CHR ''@'' # r"
      using expand_only_users[OF rs] by simp
    then show "\<exists>rs. expand_potential groups dirs winner = Inr rs \<and>
               (\<forall>r\<in>set rs. \<exists>tok \<in> set pool \<union> \<Union> (set ` snd ` set groups).
                                tok = CHR ''@'' # r)"
      using rs ep by simp
  qed
  have 2: "(\<exists>rs. expand_potential groups dirs winner = Inr rs) \<and>
          (extended all dirs winner \<noteq> [] \<or> ''core'' \<notin> reached groups pool) \<longrightarrow>
            referenced_once groups pool {''all''}"
  proof
    assume a: "(\<exists>rs. expand_potential groups dirs winner = Inr rs) \<and>
          (extended all dirs winner \<noteq> [] \<or> ''core'' \<notin> reached groups pool)"
    then have "pk \<in> {''all''} \<or> pk \<notin> reached groups pool" using pk by auto
    from expand_normal_iff[OF this, of "[]"] a show "referenced_once groups pool {''all''}"
      using ep by simp
  qed
  show ?thesis using 1 2 by blast
qed

theorem referenced_once_expansion_normal_witness:
  "map_of 
     [(''all'', [''@a'', ''team'']), (''team'', [''@b'', ''sub'']), (''sub'', [''@c'']),
      (''core'', [''@z'']), (''x'', [''z'']), (''y'', [''z'', ''all'']), (''z'', [])] ''all'' = Some [''@a'', ''team''] \<and>
   extended [''@a'', ''team''] [] None \<noteq> [] \<and>
   referenced_once 
     [(''all'', [''@a'', ''team'']), (''team'', [''@b'', ''sub'']), (''sub'', [''@c'']),
      (''core'', [''@z'']), (''x'', [''z'']), (''y'', [''z'', ''all'']), (''z'', [])] [''@a'', ''team''] {''all''} \<and>
   expand_potential 
     [(''all'', [''@a'', ''team'']), (''team'', [''@b'', ''sub'']), (''sub'', [''@c'']),
      (''core'', [''@z'']), (''x'', [''z'']), (''y'', [''z'', ''all'']), (''z'', [])] [] None = Inr [''c'', ''b'', ''a''] \<and>
   (\<exists>rs. expand_potential 
     [(''all'', [''@a'', ''team'']), (''team'', [''@b'', ''sub'']), (''sub'', [''@c'']),
      (''core'', [''@z'']), (''x'', [''z'']), (''y'', [''z'', ''all'']), (''z'', [])] [] None = Inr rs \<and>
      (\<forall>r\<in>set rs. \<exists>tok \<in> set [''@a'', ''team''] \<union> \<Union> (set ` snd ` set 
     [(''all'', [''@a'', ''team'']), (''team'', [''@b'', ''sub'']), (''sub'', [''@c'']),
      (''core'', [''@z'']), (''x'', [''z'']), (''y'', [''z'', ''all'']), (''z'', [])]).
           tok = CHR ''@'' # r))"
proof -
  let ?G = "
     [(''all'', [''@a'', ''team'']), (''team'', [''@b'', ''sub'']), (''sub'', [''@c'']),
      (''core'', [''@z'']), (''x'', [''z'']), (''y'', [''z'', ''all'']), (''z'', [])]"
  let ?pool = "[''@a'', ''team'']"
  have a: "map_of ?G ''all'' = Some ?pool" by simp
  have e: "extended ?pool [] None \<noteq> []" by (simp add: extended_def)
  have b: "extended ?pool [] None \<noteq> [] \<and> ?pool = extended ?pool [] None \<or>
           extended ?pool [] None = [] \<and> map_of ?G ''core'' = Some ?pool"
    by (simp add: extended_def)
  have r: "referenced_once ?G ?pool {''all''}"
  proof (rule referenced_once_closed[where S = "[''team'', ''sub'']"])
    show "set (group_refs ?G ?pool) \<subseteq> set [''team'', ''sub'']" by code_simp
    show "\<forall>g\<in>set [''team'', ''sub'']. set (refs_of ?G g) \<subseteq> set [''team'', ''sub'']"
      by code_simp
    show "distinct (group_refs ?G ?pool)" by code_simp
    show "\<forall>g\<in>set [''team'', ''sub'']. distinct (refs_of ?G g) \<and>
            set (refs_of ?G g) \<inter> set (group_refs ?G ?pool) = {}" by code_simp
    show "\<forall>g\<in>set [''team'', ''sub'']. \<forall>h\<in>set [''team'', ''sub'']. g \<noteq> h \<longrightarrow>
            set (refs_of ?G g) \<inter> set (refs_of ?G h) = {}" by code_simp
    show "set [''team'', ''sub''] \<inter> {''all''} = {}" by simp
  qed
  have x: "expand_potential ?G [] None = Inr [''c'', ''b'', ''a'']" by code_simp
  from referenced_once_expansion_normal[OF a b, THEN conjunct1, rule_format, OF r]
  show ?thesis using a e r x by blast
qed

subsection \<open>Overlap between the repository groups and the global groups\<close>

lemma merge_global_overlap:
  "keys global_groups \<inter> keys groups \<noteq> {} \<Longrightarrow>
   \<exists>name \<in> keys global_groups.
      merge_global groups global_groups
        = Inl (AssertionError (''group '' @ name @ '' overlaps with _global.json''))"
proof (induction global_groups arbitrary: groups)
  case Nil
  then show ?case by (simp add: keys_def)
next
  case (Cons e rest)
  obtain name people where e: "e = (name, people)" by (cases e)
  show ?case
  proof (cases "name \<in> keys groups")
    case True
    then show ?thesis using e by (auto simp: keys_def)
  next
    case False
    then have "keys rest \<inter> keys groups \<noteq> {}" using Cons.prems e by (auto simp: keys_def)
    then have "keys rest \<inter> keys (dict_set groups name people) \<noteq> {}"
      by (auto simp: keys_dict_set)
    from Cons.IH[OF this] obtain n where
      n: "n \<in> keys rest"
         "merge_global (dict_set groups name people) rest
            = Inl (AssertionError (''group '' @ n @ '' overlaps with _global.json''))" by blast
    have "n \<in> keys (e # rest)" using n(1) by (simp add: keys_def)
    moreover have "merge_global groups (e # rest)
            = Inl (AssertionError (''group '' @ n @ '' overlaps with _global.json''))"
      using n(2) e False by simp
    ultimately show ?thesis by blast
  qed
qed

lemma keys_Cons: "keys ((k, v) # d) = insert k (keys d)"
  by (simp add: keys_def)

lemma merge_global_disjoint:
  "keys global_groups \<inter> keys groups = {} \<Longrightarrow> distinct (map fst global_groups) \<Longrightarrow>
   \<exists>merged. merge_global groups global_groups = Inr merged \<and>
            keys merged = keys groups \<union> keys global_groups"
proof (induction global_groups arbitrary: groups)
  case Nil
  then show ?case by (simp add: keys_def)
next
  case (Cons e rest)
  obtain name people where e: "e = (name, people)" by (cases e)
  have nk: "name \<notin> keys groups" using Cons.prems(1) e by (auto simp: keys_Cons)
  have nr: "name \<notin> keys rest" using Cons.prems(2) e by (simp add: keys_def)
  have "keys rest \<inter> keys (dict_set groups name people) = {}"
    using Cons.prems(1) e nr by (auto simp: keys_dict_set keys_Cons)
  moreover have "distinct (map fst rest)" using Cons.prems(2) by simp
  ultimately obtain merged where
    m: "merge_global (dict_set groups name people) rest = Inr merged"
    "keys merged = keys (dict_set groups name people) \<union> keys rest" using Cons.IH by blast
  have "merge_global groups (e # rest) = Inr merged" using m(1) e nk by simp
  moreover have "keys merged = keys groups \<union> keys (e # rest)"
    using m(2) e by (auto simp: keys_dict_set keys_Cons)
  ultimately show ?case by blast
qed

text \<open>
  Claim C8. When the repository configuration has groups and some group name of
  \<^verbatim>\<open>_global.json\<close> is also a group name of the repository, the merge raises the assertion
  error \<^verbatim>\<open>group ... overlaps with _global.json\<close> for a global group name, and this is the
  outcome of \<^verbatim>\<open>choose_reviewer\<close> for every diff, author and random draw: neither definition
  wins.
\<close>

theorem group_overlap_raises:
  assumes "cfg_groups cfg = Some repo_groups" and "keys global_groups \<inter> keys repo_groups \<noteq> {}"
  shows "\<exists>name \<in> keys global_groups.
      merge_global repo_groups global_groups
        = Inl (AssertionError (''group '' @ name @ '' overlaps with _global.json'')) \<and>
      choose_reviewer cfg global_groups diff exclude rnd
        = Inl (AssertionError (''group '' @ name @ '' overlaps with _global.json''))"
proof -
  from merge_global_overlap[OF assms(2)] obtain name where
    n: "name \<in> keys global_groups"
       "merge_global repo_groups global_groups
          = Inl (AssertionError (''group '' @ name @ '' overlaps with _global.json''))" by blast
  have "choose_reviewer cfg global_groups diff exclude rnd
        = Inl (AssertionError (''group '' @ name @ '' overlaps with _global.json''))"
    using assms(1) n(2) by (simp add: choose_reviewer_def)
  then show ?thesis using n by blast
qed

theorem group_overlap_raises_witness:
  "cfg_groups \<lparr>cfg_dirs = None, cfg_groups = Some [(''all'', [''@a'']), (''core'', [''@b''])],
      cfg_mentions = None, cfg_contributing = None, cfg_expected_branch = None,
      cfg_new_pr_labels = None\<rparr> = Some [(''all'', [''@a'']), (''core'', [''@b''])] \<and>
   keys [(''libs'', [''@c'']), (''core'', [''@d''])] \<inter> keys [(''all'', [''@a'']), (''core'', [''@b''])]
      \<noteq> {} \<and>
   choose_reviewer \<lparr>cfg_dirs = None, cfg_groups = Some [(''all'', [''@a'']), (''core'', [''@b''])],
      cfg_mentions = None, cfg_contributing = None, cfg_expected_branch = None,
      cfg_new_pr_labels = None\<rparr> [(''libs'', [''@c'']), (''core'', [''@d''])] [] ''x'' 0
     = Inl (AssertionError ''group core overlaps with _global.json'') \<and>
   (\<exists>name \<in> keys [(''libs'', [''@c'']), (''core'', [''@d''])].
      choose_reviewer \<lparr>cfg_dirs = None, cfg_groups = Some [(''all'', [''@a'']), (''core'', [''@b''])],
        cfg_mentions = None, cfg_contributing = None, cfg_expected_branch = None,
        cfg_new_pr_labels = None\<rparr> [(''libs'', [''@c'']), (''core'', [''@d''])] [] ''x'' 0
       = Inl (AssertionError (''group '' @ name @ '' overlaps with _global.json'')))"
proof -
  let ?cfg = "\<lparr>cfg_dirs = None, cfg_groups = Some [(''all'', [''@a'']), (''core'', [''@b''])],
      cfg_mentions = None, cfg_contributing = None, cfg_expected_branch = None,
      cfg_new_pr_labels = None\<rparr>"
  let ?gg = "[(''libs'', [''@c'']), (''core'', [''@d''])]"
  have a: "cfg_groups ?cfg = Some [(''all'', [''@a'']), (''core'', [''@b''])]" by simp
  have b: "keys ?gg \<inter> keys [(''all'', [''@a'']), (''core'', [''@b''])] \<noteq> {}"
    by (simp add: keys_def)
  have c: "choose_reviewer ?cfg ?gg [] ''x'' 0
     = Inl (AssertionError ''group core overlaps with _global.json'')" by code_simp
  from group_overlap_raises[OF a b, of "[]" "''x''" 0]
  show ?thesis using a b c by blast
qed

subsection \<open>The author among the reviewers\<close>

text \<open>
  Claim C1 on the code: \<^verbatim>\<open>reviewers.remove(exclude)\<close> removes one occurrence only. With the
  author \<^verbatim>\<open>a\<close> listed in \<^verbatim>\<open>all\<close> and again in the group \<^verbatim>\<open>team\<close>, the expanded list is
  \<^verbatim>\<open>['b', 'a', 'a']\<close>, one \<^verbatim>\<open>a\<close> stays after the removal, and the draw \<open>1\<close> returns the
  author. With \<^verbatim>\<open>all\<close> being \<^verbatim>\<open>['@a', '@a']\<close> the author is the only candidate and is
  returned, where the claim says \<^verbatim>\<open>None\<close>.
\<close>

theorem author_listed_twice_is_chosen:
  "expand_potential [(''all'', [''@a'', ''team'']), (''team'', [''@a'', ''@b''])] [] None
     = Inr [''b'', ''a'', ''a''] \<and>
   choose_reviewer
     \<lparr>cfg_dirs = None, cfg_groups = Some [(''all'', [''@a'', ''team'']), (''team'', [''@a'', ''@b''])],
      cfg_mentions = None, cfg_contributing = None, cfg_expected_branch = None,
      cfg_new_pr_labels = None\<rparr>
     [] [] ''a'' 1 = Inr (Some ''a'') \<and>
   choose_reviewer
     \<lparr>cfg_dirs = None, cfg_groups = Some [(''all'', [''@a'', ''@a''])],
      cfg_mentions = None, cfg_contributing = None, cfg_expected_branch = None,
      cfg_new_pr_labels = None\<rparr>
     [] [] ''a'' 0 = Inr (Some ''a'')"
  by code_simp

subsection \<open>The mention scan records first occurrences\<close>

lemma join_split_str: "join [c] (split_str c s) = s"
proof (induction s)
  case Nil
  then show ?case by simp
next
  case (Cons x xs)
  show ?case
  proof (cases "x = c")
    case True
    obtain w ws where "split_str c xs = w # ws"
      using split_str_not_Nil[of c xs] by (cases "split_str c xs") auto
    then show ?thesis using Cons True by simp
  next
    case False
    obtain w ws where w: "split_str c xs = w # ws"
      using split_str_not_Nil[of c xs] by (cases "split_str c xs") auto
    then show ?thesis using Cons False by (cases ws) auto
  qed
qed

lemma endswith_suffix: "endswith s e = suffix e s"
  by (simp add: endswith_def suffix_to_prefix)

lemma match_entries_add_new:
  "match_entries path entries acc = add_new acc (filter (pattern_matches path) entries)"
proof (induction entries arbitrary: acc)
  case Nil
  then show ?case by (simp add: add_new_def)
next
  case (Cons e entries)
  show ?case
  proof (cases "pattern_matches path e")
    case True
    then have "startswith path e \<or> (endswith e ''.rs'' \<and> endswith path e)"
      by (simp add: pattern_matches_def startswith_def endswith_suffix)
    then show ?thesis using Cons True by (auto simp: add_new_def)
  next
    case False
    then have "\<not> startswith path e" "\<not> (endswith e ''.rs'' \<and> endswith path e)"
      by (simp_all add: pattern_matches_def startswith_def endswith_suffix)
    then show ?thesis using Cons False by (auto simp: add_new_def)
  qed
qed

lemma add_new_append: "add_new acc (xs @ ys) = add_new (add_new acc xs) ys"
  by (simp add: add_new_def)

lemma first_occurrences_filter:
  "first_occurrences (filter P xs) = filter P (first_occurrences xs)"
proof (induction xs)
  case Nil
  then show ?case by simp
next
  case (Cons x xs)
  show ?case
  proof (cases "P x")
    case True
    then show ?thesis using Cons by (simp add: conj_commute)
  next
    case False
    have "filter P (filter (\<lambda>y. y \<noteq> x) (first_occurrences xs)) = filter P (first_occurrences xs)"
      using False by (auto intro: filter_cong)
    then show ?thesis using Cons False by simp
  qed
qed

lemma add_new_first_occurrences:
  "add_new acc xs = acc @ first_occurrences (filter (\<lambda>x. x \<notin> set acc) xs)"
proof (induction xs arbitrary: acc)
  case Nil
  then show ?case by (simp add: add_new_def)
next
  case (Cons x xs)
  show ?case
  proof (cases "x \<in> set acc")
    case True
    then have "add_new acc (x # xs) = add_new acc xs" by (simp add: add_new_def)
    then show ?thesis using Cons[of acc] True by simp
  next
    case False
    then have "add_new acc (x # xs) = add_new (acc @ [x]) xs" by (simp add: add_new_def)
    also have "\<dots> = (acc @ [x]) @ first_occurrences (filter (\<lambda>y. y \<notin> set (acc @ [x])) xs)"
      by (rule Cons)
    also have "filter (\<lambda>y. y \<notin> set (acc @ [x])) xs
                 = filter (\<lambda>y. y \<noteq> x) (filter (\<lambda>y. y \<notin> set acc) xs)"
      by (auto intro: filter_cong)
    finally show ?thesis using False by (simp add: first_occurrences_filter)
  qed
qed

lemma mention_line_add_new:
  "mention_line mentions acc line =
     add_new acc
       (if startswith line ''diff --git '' \<and> drop (nat (find_str line '' b/'' + 3)) line \<noteq> []
        then filter (pattern_matches (drop (nat (find_str line '' b/'' + 3)) line)) (map fst mentions)
        else [])"
proof -
  have j: "join ''/'' (header_parts line) = drop (nat (find_str line '' b/'' + 3)) line"
    unfolding header_parts_def by (rule join_split_str)
  have n: "header_parts line \<noteq> []" by (simp add: header_parts_def split_str_not_Nil)
  show ?thesis
    using j n by (simp add: mention_line_def match_entries_add_new add_new_def)
qed

lemma foldl_mention_line:
  "foldl (mention_line mentions) acc lines =
     add_new acc
       (concat (map (\<lambda>path. if path \<noteq> [] then filter (pattern_matches path) (map fst mentions)
                             else [])
                    (map (\<lambda>line. drop (nat (find_str line '' b/'' + 3)) line)
                         (filter (\<lambda>line. startswith line ''diff --git '') lines))))"
proof (induction lines arbitrary: acc)
  case Nil
  then show ?case by (simp add: add_new_def)
next
  case (Cons l lines)
  show ?case
    by (simp add: Cons mention_line_add_new[of mentions acc l] add_new_append[symmetric])
qed

lemma to_mention_keys_spec:
  "to_mention_keys cfg diff =
     (if get_dirs cfg \<noteq> [] then first_occurrences (all_matches (get_mentions cfg) diff) else [])"
  by (simp add: to_mention_keys_def foldl_mention_line add_new_first_occurrences
        all_matches_def header_paths_def)

lemma set_first_occurrences: "set (first_occurrences xs) = set xs"
  by (induction xs) auto

lemma distinct_first_occurrences: "distinct (first_occurrences xs)"
  by (induction xs) (auto simp: set_first_occurrences)

lemma all_matches_keys: "set (all_matches mentions diff) \<subseteq> keys mentions"
  by (auto simp: all_matches_def keys_def split: if_splits)

lemma lookup_all_keys:
  "set ks \<subseteq> keys d \<Longrightarrow> \<exists>vs. lookup_all d ks = Inr vs \<and> map Some vs = map (map_of d) ks"
proof (induction ks)
  case Nil
  then show ?case by simp
next
  case (Cons k ks)
  then obtain v where v: "map_of d k = Some v" using keys_map_of[of k d] by auto
  from Cons obtain vs where "lookup_all d ks = Inr vs" "map Some vs = map (map_of d) ks" by auto
  then show ?case using v by simp
qed

subsection \<open>The matched mention rules\<close>

text \<open>
  Claim C7, as stated, fails: the scan of \<^verbatim>\<open>get_to_mention\<close> is inside \<^verbatim>\<open>if dirs:\<close>, so with
  no directory map nothing is tested. Here the pattern \<^verbatim>\<open>src/\<close> matches the path of the
  only header, and the result is empty.
\<close>

theorem no_dirs_no_mentions_counterexample:
  "all_matches [(''src/'', \<lparr>m_message = None, m_command = None, m_reviewers = [''@x'']\<rparr>)]
      ''diff --git a/src/x.rs b/src/x.rs'' = [''src/''] \<and>
   get_to_mention
     \<lparr>cfg_dirs = None, cfg_groups = Some [(''all'', [''@a''])],
      cfg_mentions = Some [(''src/'', \<lparr>m_message = None, m_command = None, m_reviewers = [''@x'']\<rparr>)],
      cfg_contributing = None, cfg_expected_branch = None, cfg_new_pr_labels = None\<rparr>
     ''diff --git a/src/x.rs b/src/x.rs'' = Inr []"
  by code_simp

text \<open>
  Claim C7, amended. \<^verbatim>\<open>get_to_mention\<close> never raises. When the directory map of the
  repository is not empty, it tests every mention pattern against every non-empty file
  path of a diff header, by prefix or, for a pattern ending in \<^verbatim>\<open>.rs\<close>, by suffix, and
  returns the rules of the matched pattern keys, each key once, in the order of its first
  match. When the directory map is empty or absent it returns the empty list.
\<close>

theorem get_to_mention_first_matches:
  "\<exists>rules. get_to_mention cfg diff = Inr rules \<and>
     map Some rules
       = map (map_of (get_mentions cfg))
             (if get_dirs cfg \<noteq> [] then first_occurrences (all_matches (get_mentions cfg) diff)
              else [])"
proof -
  have "set (to_mention_keys cfg diff) \<subseteq> keys (get_mentions cfg)"
    using all_matches_keys[of "get_mentions cfg" diff]
    by (auto simp: to_mention_keys_spec set_first_occurrences)
  from lookup_all_keys[OF this] show ?thesis
    by (simp add: get_to_mention_def to_mention_keys_spec)
qed

theorem get_to_mention_first_matches_witness:
  "get_to_mention
     \<lparr>cfg_dirs = Some [(''src/libcore'', [''@a''])], cfg_groups = Some [(''all'', [''@a''])],
      cfg_mentions = Some
        [(''src/libcore'', \<lparr>m_message = Some ''core'', m_command = None, m_reviewers = [''@x'']\<rparr>),
         (''mod.rs'', \<lparr>m_message = None, m_command = None, m_reviewers = [''@y'']\<rparr>)],
      cfg_contributing = None, cfg_expected_branch = None, cfg_new_pr_labels = None\<rparr>
     (''diff --git a/src/libstd/mod.rs b/src/libstd/mod.rs\<newline>+a\<newline>'' @
      ''diff --git a/src/libcore/mod.rs b/src/libcore/mod.rs\<newline>+b'')
   = Inr [\<lparr>m_message = None, m_command = None, m_reviewers = [''@y'']\<rparr>,
          \<lparr>m_message = Some ''core'', m_command = None, m_reviewers = [''@x'']\<rparr>]"
proof -
  let ?M = "[(''src/libcore'', \<lparr>m_message = Some ''core'', m_command = None, m_reviewers = [''@x'']\<rparr>),
         (''mod.rs'', \<lparr>m_message = None, m_command = None, m_reviewers = [''@y'']\<rparr>)]"
  let ?cfg = "\<lparr>cfg_dirs = Some [(''src/libcore'', [''@a''])], cfg_groups = Some [(''all'', [''@a''])],
      cfg_mentions = Some ?M,
      cfg_contributing = None, cfg_expected_branch = None, cfg_new_pr_labels = None\<rparr>"
  let ?diff = "''diff --git a/src/libstd/mod.rs b/src/libstd/mod.rs\<newline>+a\<newline>'' @
      ''diff --git a/src/libcore/mod.rs b/src/libcore/mod.rs\<newline>+b''"
  have m: "get_mentions ?cfg = ?M" by (simp add: get_mentions_def)
  have d: "get_dirs ?cfg \<noteq> []" by (simp add: get_dirs_def)
  have a: "first_occurrences (all_matches ?M ?diff) = [''mod.rs'', ''src/libcore'']" by code_simp
  from get_to_mention_first_matches[of ?cfg ?diff] obtain rules where
    r: "get_to_mention ?cfg ?diff = Inr rules"
       "map Some rules = map (map_of (get_mentions ?cfg))
             (if get_dirs ?cfg \<noteq> [] then first_occurrences (all_matches (get_mentions ?cfg) ?diff)
              else [])" by blast
  have "map Some rules = map (map_of ?M) [''mod.rs'', ''src/libcore'']"
    using r(2) d a unfolding m by simp
  then have "rules = [\<lparr>m_message = None, m_command = None, m_reviewers = [''@y'']\<rparr>,
          \<lparr>m_message = Some ''core'', m_command = None, m_reviewers = [''@x'']\<rparr>]"
    by auto
  then show ?thesis using r(1) by simp
qed

subsection \<open>The leftmost match of the reviewer pattern\<close>

lemma is_word_r: "is_word (CHR ''r'')" "is_word (CHR ''R'')"
  by (simp_all add: is_word_def)

lemma is_sep_not_at: "\<not> is_sep (CHR ''@'')"
  by (simp add: is_sep_def)

lemma match_at_pattern:
  assumes "c = CHR ''r'' \<or> c = CHR ''R''" and "\<forall>x\<in>set seps. is_sep x"
    and "name \<noteq> []" and "\<forall>x\<in>set name. is_name x"
    and "post = [] \<or> \<not> is_name (hd post)"
    and "word_boundary prev (Some c)"
  shows "match_at prev (c # ''?'' @ seps @ ''@'' @ name @ post) = Some name"
proof -
  have d: "dropWhile is_sep (seps @ ''@'' @ name @ post) = CHR ''@'' # name @ post"
    using assms(2) is_sep_not_at by (simp add: dropWhile_append2)
  have "takeWhile is_name post = []" using assms(5) by (cases post) auto
  then have t: "takeWhile is_name (name @ post) = name"
    using assms(4) by (simp add: takeWhile_append2)
  show ?thesis using assms(1,3,6) d t by (auto simp: match_at_def)
qed

lemma match_at_short: "match_at prev [x] = None" "match_at prev [] = None"
  by (simp_all add: match_at_def)

text \<open>Mentions, and the leftmost of them.\<close>

lemma match_at_SomeD:
  assumes "match_at prev s = Some name"
  shows "\<exists>c seps post. s = c # ''?'' @ seps @ ''@'' @ name @ post \<and>
           (c = CHR ''r'' \<or> c = CHR ''R'') \<and> word_boundary prev (Some c) \<and>
           (\<forall>x\<in>set seps. is_sep x) \<and> name \<noteq> [] \<and> (\<forall>x\<in>set name. is_name x) \<and>
           (post = [] \<or> \<not> is_name (hd post))"
proof -
  from assms obtain c q rest where s: "s = c # q # rest"
    by (auto simp: match_at_def split: list.splits)
  from assms s have c: "c = CHR ''r'' \<or> c = CHR ''R''" "q = CHR ''?''"
    "word_boundary prev (Some c)"
    by (auto simp: match_at_def split: if_splits)
  from assms s c obtain a tail where d: "dropWhile is_sep rest = a # tail"
    by (auto simp: match_at_def split: list.splits if_splits)
  from assms s c d have a: "a = CHR ''@''" "takeWhile is_name tail \<noteq> []"
    "name = takeWhile is_name tail"
    by (auto simp: match_at_def split: if_splits)
  let ?seps = "takeWhile is_sep rest"
  let ?post = "dropWhile is_name tail"
  have "rest = ?seps @ dropWhile is_sep rest" by simp
  then have r: "rest = ?seps @ ''@'' @ name @ ?post" using d a by simp
  have 1: "\<forall>x\<in>set ?seps. is_sep x" by (auto dest: set_takeWhileD)
  have 2: "\<forall>x\<in>set name. is_name x" using a(3) by (auto dest: set_takeWhileD)
  have 3: "?post = [] \<or> \<not> is_name (hd ?post)" using hd_dropWhile[of is_name tail] by blast
  have "s = c # ''?'' @ ?seps @ ''@'' @ name @ ?post" using s c(2) r by simp
  then show ?thesis using c(1,3) 1 2 3 a(2,3) by blast
qed

lemma word_boundary_r:
  "c = CHR ''r'' \<or> c = CHR ''R'' \<Longrightarrow>
   word_boundary prev (Some c) \<longleftrightarrow> (case prev of None \<Rightarrow> True | Some x \<Rightarrow> \<not> is_word x)"
  using is_word_r by (auto simp: word_boundary_def split: option.splits)

text \<open>A mention at position \<open>i\<close> is a match of the pattern that starts there.\<close>

lemma mention_at_match_at:
  "mention_at body i name \<longleftrightarrow>
     i \<le> length body \<and>
     match_at (if i = 0 then None else Some (body ! (i - 1))) (drop i body) = Some name"
proof
  assume "mention_at body i name"
  then obtain c seps post where
    m: "i \<le> length body" "body = take i body @ c # ''?'' @ seps @ ''@'' @ name @ post"
       "c = CHR ''r'' \<or> c = CHR ''R''" "i = 0 \<or> \<not> is_word (body ! (i - 1))"
       "\<forall>x\<in>set seps. is_sep x" "name \<noteq> []" "\<forall>x\<in>set name. is_name x"
       "post = [] \<or> \<not> is_name (hd post)"
    unfolding mention_at_def by blast
  have "drop i body = drop i (take i body @ c # ''?'' @ seps @ ''@'' @ name @ post)"
    using m(2) by simp
  also have "\<dots> = c # ''?'' @ seps @ ''@'' @ name @ post" using m(1) by simp
  finally have d: "drop i body = c # ''?'' @ seps @ ''@'' @ name @ post" .
  have wb: "word_boundary (if i = 0 then None else Some (body ! (i - 1))) (Some c)"
    using m(3,4) by (auto simp: word_boundary_r)
  show "i \<le> length body \<and>
     match_at (if i = 0 then None else Some (body ! (i - 1))) (drop i body) = Some name"
    unfolding d using match_at_pattern[OF m(3,5,6,7,8) wb] m(1) by simp
next
  assume a: "i \<le> length body \<and>
     match_at (if i = 0 then None else Some (body ! (i - 1))) (drop i body) = Some name"
  from match_at_SomeD[OF a[THEN conjunct2]] obtain c seps post where
    m: "drop i body = c # ''?'' @ seps @ ''@'' @ name @ post"
       "c = CHR ''r'' \<or> c = CHR ''R''"
       "word_boundary (if i = 0 then None else Some (body ! (i - 1))) (Some c)"
       "\<forall>x\<in>set seps. is_sep x" "name \<noteq> []" "\<forall>x\<in>set name. is_name x"
       "post = [] \<or> \<not> is_name (hd post)" by blast
  have "body = take i body @ drop i body" by simp
  then have b: "body = take i body @ c # ''?'' @ seps @ ''@'' @ name @ post" using m(1) by simp
  have w: "i = 0 \<or> \<not> is_word (body ! (i - 1))"
    using m(3) word_boundary_r[OF m(2)] by (auto split: if_splits)
  show "mention_at body i name"
    unfolding mention_at_def using a b m(2,4,5,6,7) w by blast
qed

lemma re_search_leftmost:
  "i \<le> length s \<Longrightarrow>
   match_at (if i = 0 then prev else Some (s ! (i - 1))) (drop i s) = Some name \<Longrightarrow>
   \<forall>j<i. match_at (if j = 0 then prev else Some (s ! (j - 1))) (drop j s) = None \<Longrightarrow>
   re_search prev s = Some name"
proof (induction s arbitrary: prev i)
  case Nil
  then show ?case by (simp add: match_at_short)
next
  case (Cons c cs)
  show ?case
  proof (cases i)
    case 0
    then show ?thesis using Cons.prems(2) by simp
  next
    case (Suc k)
    have m0: "match_at prev (c # cs) = None" using Cons.prems(3) Suc by force
    have 1: "k \<le> length cs" using Cons.prems(1) Suc by simp
    have 2: "match_at (if k = 0 then Some c else Some (cs ! (k - 1))) (drop k cs) = Some name"
      using Cons.prems(2) Suc by (cases k) simp_all
    have 3: "\<forall>j<k. match_at (if j = 0 then Some c else Some (cs ! (j - 1))) (drop j cs) = None"
    proof (intro allI impI)
      fix j assume "j < k"
      then have "Suc j < i" using Suc by simp
      from Cons.prems(3)[rule_format, OF this]
      show "match_at (if j = 0 then Some c else Some (cs ! (j - 1))) (drop j cs) = None"
        by (cases j) simp_all
    qed
    from Cons.IH[OF 1 2 3] show ?thesis using m0 by simp
  qed
qed

lemma find_reviewer_leftmost:
  assumes "mention_at body i name" and "\<forall>j<i. \<forall>n. \<not> mention_at body j n"
  shows "find_reviewer (Some body) = Some name"
proof -
  have i: "i \<le> length body"
    and m: "match_at (if i = 0 then None else Some (body ! (i - 1))) (drop i body) = Some name"
    using assms(1) unfolding mention_at_match_at by simp_all
  have "\<forall>j<i. match_at (if j = 0 then None else Some (body ! (j - 1))) (drop j body) = None"
  proof (intro allI impI)
    fix j assume j: "j < i"
    then have "\<forall>n. \<not> mention_at body j n" using assms(2) by blast
    then have "\<forall>n. match_at (if j = 0 then None else Some (body ! (j - 1))) (drop j body) \<noteq> Some n"
      unfolding mention_at_match_at using j i by simp
    then show "match_at (if j = 0 then None else Some (body ! (j - 1))) (drop j body) = None"
      by (cases "match_at (if j = 0 then None else Some (body ! (j - 1))) (drop j body)") auto
  qed
  from re_search_leftmost[OF i m this] show ?thesis by (simp add: find_reviewer_def)
qed

text \<open>Without a mention there is no match.\<close>

lemma re_search_SomeD:
  "re_search prev s = Some name \<Longrightarrow>
   \<exists>i\<le>length s. match_at (if i = 0 then prev else Some (s ! (i - 1))) (drop i s) = Some name"
proof (induction s arbitrary: prev)
  case Nil
  then show ?case by simp
next
  case (Cons c cs)
  show ?case
  proof (cases "match_at prev (c # cs)")
    case (Some n)
    then have "match_at (if (0::nat) = 0 then prev else Some ((c # cs) ! (0 - 1))) (drop 0 (c # cs))
                 = Some name"
      using Cons.prems by simp
    then show ?thesis by blast
  next
    case None
    then have "re_search (Some c) cs = Some name" using Cons.prems by simp
    from Cons.IH[OF this] obtain k where
      k: "k \<le> length cs"
         "match_at (if k = 0 then Some c else Some (cs ! (k - 1))) (drop k cs) = Some name"
      by blast
    have "Suc k \<le> length (c # cs) \<and>
          match_at (if Suc k = 0 then prev else Some ((c # cs) ! (Suc k - 1))) (drop (Suc k) (c # cs))
            = Some name"
      using k by (cases k) simp_all
    then show ?thesis by blast
  qed
qed

lemma find_reviewer_mention:
  "find_reviewer (Some body) = Some name \<Longrightarrow> \<exists>i. mention_at body i name"
  using re_search_SomeD[of None body name] unfolding mention_at_match_at
  by (auto simp: find_reviewer_def)

subsection \<open>The text composed by \<^verbatim>\<open>run_commands\<close>\<close>

lemma foldl_sep_append:
  "\<forall>x\<in>set xs. x \<noteq> [] \<Longrightarrow> acc \<noteq> [] \<Longrightarrow>
   foldl sep_append acc xs = join ''\<newline>\<newline>'' (acc # xs)"
proof (induction xs arbitrary: acc)
  case Nil
  then show ?case by simp
next
  case (Cons x xs)
  have "sep_append acc x \<noteq> []" using Cons.prems(2) by (simp add: sep_append_def)
  then have "foldl sep_append (sep_append acc x) xs = join ''\<newline>\<newline>'' (sep_append acc x # xs)"
    using Cons.IH[of "sep_append acc x"] Cons.prems(1) by simp
  moreover have "join ''\<newline>\<newline>'' (sep_append acc x # xs) = join ''\<newline>\<newline>'' (acc # x # xs)"
    using Cons.prems(2) by (cases xs) (simp_all add: sep_append_def)
  ultimately show ?case by simp
qed

lemma foldl_sep_append_Nil:
  "\<forall>x\<in>set xs. x \<noteq> [] \<Longrightarrow> foldl sep_append [] xs = join ''\<newline>\<newline>'' xs"
proof (cases xs)
  case Nil
  then show ?thesis by simp
next
  case (Cons x xs')
  assume a: "\<forall>x\<in>set xs. x \<noteq> []"
  have "sep_append [] x = x" by (simp add: sep_append_def)
  then show ?thesis using foldl_sep_append[of xs' x] a Cons by simp
qed

lemma join_Cons_not_Nil: "x \<noteq> [] \<Longrightarrow> join sep (x # xs) \<noteq> []"
  by (cases xs) simp_all

lemma cc_block_not_Nil: "cc_block user mention \<noteq> []"
  by (simp add: cc_block_def)

lemma mention_loop_fold:
  "mention_loop user sha ms (message, commands) =
     (foldl sep_append message (map (cc_block user) ms),
      foldl (\<lambda>d cmd. dict_set d cmd sha) commands (List.map_filter m_command ms))"
proof (induction ms arbitrary: message commands)
  case Nil
  then show ?case by (simp add: map_filter_simps)
next
  case (Cons m ms)
  show ?case
    by (cases "m_command m")
       (simp_all add: Cons Let_def sep_append_def cc_block_def map_filter_simps)
qed

lemma command_loop_fold:
  "command_loop commands message = foldl sep_append message (map (\<lambda>(cmd, v). cmd @ '' '' @ v) commands)"
  by (induction commands message rule: command_loop.induct) (simp_all add: sep_append_def)

lemma dict_set_recorded:
  "dict_set (map (\<lambda>c. (c, sha)) ks) cmd sha
     = map (\<lambda>c. (c, sha)) (if cmd \<in> set ks then ks else ks @ [cmd])"
  by (induction ks) auto

lemma foldl_dict_set:
  "foldl (\<lambda>d cmd. dict_set d cmd sha) (map (\<lambda>c. (c, sha)) ks) cmds
     = map (\<lambda>c. (c, sha)) (add_new ks cmds)"
proof (induction cmds arbitrary: ks)
  case Nil
  then show ?case by (simp add: add_new_def)
next
  case (Cons c cmds)
  show ?case
    using Cons[of "if c \<in> set ks then ks else ks @ [c]"]
    by (simp add: dict_set_recorded add_new_def)
qed

lemma commands_first_occurrences:
  "foldl (\<lambda>d cmd. dict_set d cmd sha) [] cmds = map (\<lambda>c. (c, sha)) (first_occurrences cmds)"
  using foldl_dict_set[of sha "[]" cmds] by (simp add: add_new_first_occurrences)

lemma run_commands_text:
  "run_commands env to_mention user sha =
     (if to_mention \<noteq> [] then post_comment env MentionComment (mention_text user sha to_mention)
      else ([], Inr ()))"
proof (cases "to_mention = []")
  case True
  then show ?thesis by (simp add: run_commands_def)
next
  case False
  let ?blocks = "map (cc_block user) to_mention"
  let ?tr = "command_trailers sha to_mention"
  have ne: "\<forall>x\<in>set (?blocks @ ?tr). x \<noteq> []"
    using cc_block_not_Nil[of user] by (auto simp: command_trailers_def) metis
  have "command_loop (foldl (\<lambda>d cmd. dict_set d cmd sha) [] (List.map_filter m_command to_mention))
          (foldl sep_append [] ?blocks)
        = foldl sep_append [] (?blocks @ ?tr)"
    by (simp add: command_loop_fold commands_first_occurrences command_trailers_def comp_def)
  also have "\<dots> = mention_text user sha to_mention"
    using foldl_sep_append_Nil[OF ne] by (simp add: mention_text_def)
  finally have t: "command_loop (snd (mention_loop user sha to_mention ([], [])))
                     (fst (mention_loop user sha to_mention ([], [])))
                   = mention_text user sha to_mention"
    by (simp add: mention_loop_fold)
  obtain b bs where "to_mention = b # bs" using False by (cases to_mention) auto
  then have "mention_text user sha to_mention \<noteq> []"
    using join_Cons_not_Nil[OF cc_block_not_Nil[of user b]] by (simp add: mention_text_def)
  then show ?thesis using False t by (simp add: run_commands_def case_prod_beta)
qed

subsection \<open>The actions of each step of \<^verbatim>\<open>new_pr\<close>\<close>

lemma bind_actions:
  "a \<in> set (fst (bind m f)) \<longleftrightarrow>
     a \<in> set (fst m) \<or> (\<exists>x. snd m = Inr x \<and> a \<in> set (fst (f x)))"
  by (cases m; cases "snd m") (auto simp: bind_def split: prod.splits)

lemma post_comment_actions: "fst (post_comment env kind body) = [kind body]"
  by (simp add: post_comment_def)

lemma run_commands_actions:
  "a \<in> set (fst (run_commands env to_mention user sha)) \<longleftrightarrow>
     to_mention \<noteq> [] \<and> a = MentionComment (mention_text user sha to_mention)"
  by (auto simp: run_commands_text post_comment_actions)

lemma set_assignee_actions:
  "a \<in> set (fst (set_assignee env assignee to_mention user sha)) \<longleftrightarrow>
     a = SetAssignee assignee \<or>
     (tolerate_201 (gw_assignee env assignee) = Inr () \<and> to_mention \<noteq> [] \<and>
      a = MentionComment (mention_text user sha to_mention))"
  by (auto simp: set_assignee_def bind_actions run_commands_actions)

lemma is_new_contributor_actions:
  "a \<in> set (fst (is_new_contributor env pl)) \<Longrightarrow> a = SearchCommits (pr_author pl)"
  by (auto simp: is_new_contributor_def split: if_splits)

lemma post_warnings_actions:
  "a \<in> set (fst (post_warnings env cfg pl diff)) \<Longrightarrow> \<exists>m. a = WarningComment m"
  by (auto simp: post_warnings_def post_comment_actions Let_def split: sum.splits if_splits)

lemma add_labels_actions:
  "a \<in> set (fst (add_labels env cfg)) \<Longrightarrow> \<exists>ls. a = AddLabels ls"
  by (auto simp: add_labels_def split: option.splits if_splits)

lemma select_reviewer_actions:
  "a \<in> set (fst (select_reviewer env cfg pl diff)) \<Longrightarrow>
     a = LoadGlobalConfig \<and> (find_reviewer (pr_body pl) = None \<or> find_reviewer (pr_body pl) = Some [])"
  by (auto simp: select_reviewer_def Let_def split: if_splits)

lemma select_reviewer_explicit:
  "find_reviewer (pr_body pl) = Some name \<Longrightarrow> name \<noteq> [] \<Longrightarrow>
   select_reviewer env cfg pl diff = ([], Inr (Some name, False))"
  by (simp add: select_reviewer_def)

lemma get_to_mention_total: "\<exists>rules. get_to_mention cfg diff = Inr rules"
proof -
  have "set (to_mention_keys cfg diff) \<subseteq> keys (get_mentions cfg)"
    using all_matches_keys[of "get_mentions cfg" diff]
    by (auto simp: to_mention_keys_spec set_first_occurrences)
  from lookup_all_keys[OF this] show ?thesis by (auto simp: get_to_mention_def)
qed

text \<open>The actions of the assignment block.\<close>

lemma assign_actions:
  assumes "a \<in> set (fst (assign env cfg pl diff))"
  shows "a = LoadGlobalConfig \<and> (find_reviewer (pr_body pl) = None \<or> find_reviewer (pr_body pl) = Some [])
       \<or> (\<exists>r post_msg. a = SetAssignee r \<and>
             snd (select_reviewer env cfg pl diff) = Inr (r, post_msg))
       \<or> (\<exists>to_mention. get_to_mention cfg diff = Inr to_mention \<and> to_mention \<noteq> [] \<and>
             a = MentionComment (mention_text (env_integration_user env) (pr_head_sha pl) to_mention))
       \<or> a = SearchCommits (pr_author pl)
       \<or> (\<exists>m. a = WelcomeComment m)
       \<or> (\<exists>m r. a = ReviewComment m \<and> snd (select_reviewer env cfg pl diff) = Inr (r, True))"
proof -
  from assms consider (sel) "a \<in> set (fst (select_reviewer env cfg pl diff))"
    | (rest) r post_msg where "snd (select_reviewer env cfg pl diff) = Inr (r, post_msg)"
        "a \<in> set (fst (bind ([], get_to_mention cfg diff) (\<lambda>to_mention.
             bind (set_assignee env r to_mention (env_integration_user env) (pr_head_sha pl)) (\<lambda>_.
             bind (is_new_contributor env pl) (\<lambda>new_contributor.
               if new_contributor then post_comment env WelcomeComment (welcome_msg cfg r)
               else if post_msg then
                 post_comment env ReviewComment (review_msg r (pr_author pl))
               else ([], Inr ()))))))"
    unfolding assign_def bind_actions[of a "select_reviewer env cfg pl diff"] by auto
  then show ?thesis
  proof cases
    case sel
    then show ?thesis using select_reviewer_actions[OF sel] by blast
  next
    case rest
    from rest(2) obtain to_mention where tm: "get_to_mention cfg diff = Inr to_mention"
      and a2: "a \<in> set (fst (bind
             (set_assignee env r to_mention (env_integration_user env) (pr_head_sha pl)) (\<lambda>_.
             bind (is_new_contributor env pl) (\<lambda>new_contributor.
               if new_contributor then post_comment env WelcomeComment (welcome_msg cfg r)
               else if post_msg then
                 post_comment env ReviewComment (review_msg r (pr_author pl))
               else ([], Inr ())))))"
      unfolding bind_actions[of a "([], get_to_mention cfg diff)"] by auto
    from a2 consider (sa) "a \<in> set (fst (set_assignee env r to_mention (env_integration_user env)
                                            (pr_head_sha pl)))"
      | (nc) "a \<in> set (fst (bind (is_new_contributor env pl) (\<lambda>new_contributor.
               if new_contributor then post_comment env WelcomeComment (welcome_msg cfg r)
               else if post_msg then
                 post_comment env ReviewComment (review_msg r (pr_author pl))
               else ([], Inr ()))))"
      unfolding bind_actions[of a "set_assignee env r to_mention (env_integration_user env)
                                            (pr_head_sha pl)"] by auto
    then show ?thesis
    proof cases
      case sa
      then show ?thesis using tm rest(1) unfolding set_assignee_actions by blast
    next
      case nc
      then consider (s) "a \<in> set (fst (is_new_contributor env pl))"
        | (w) "a \<in> set (fst (post_comment env WelcomeComment (welcome_msg cfg r)))"
        | (rv) "post_msg" "a \<in> set (fst (post_comment env ReviewComment
                                               (review_msg r (pr_author pl))))"
        unfolding bind_actions[of a "is_new_contributor env pl"] by (auto split: if_splits)
      then show ?thesis
      proof cases
        case s
        then show ?thesis using is_new_contributor_actions[OF s] by blast
      next
        case w
        then show ?thesis by (simp add: post_comment_actions)
      next
        case rv
        then show ?thesis using rest(1) by (auto simp: post_comment_actions)
      qed
    qed
  qed
qed

subsection \<open>The actions of \<^verbatim>\<open>new_pr\<close>\<close>

lemma new_pr_actions:
  assumes "a \<in> set (fst (new_pr env cfg pl))"
  shows "a = FetchDiff \<or>
         (\<exists>diff. gw_diff env = Inr diff \<and>
            (pr_assignees pl = [] \<and> a \<in> set (fst (assign env cfg pl diff)) \<or>
             (\<exists>m. a = WarningComment m) \<or> (\<exists>ls. a = AddLabels ls)))"
proof -
  let ?fetch = "([FetchDiff],
      (case gw_diff env of Inl code \<Rightarrow> Inl (HTTPError code) | Inr d \<Rightarrow> Inr d)) :: string run"
  from assms consider (f) "a \<in> set (fst ?fetch)"
    | (r) diff where "snd ?fetch = Inr diff"
        "a \<in> set (fst (bind (if pr_assignees pl = [] then assign env cfg pl diff else ([], Inr ()))
              (\<lambda>_. bind (post_warnings env cfg pl diff) (\<lambda>_. add_labels env cfg))))"
    unfolding new_pr_def bind_actions[of a ?fetch] by auto
  then show ?thesis
  proof cases
    case f
    then show ?thesis by simp
  next
    case r
    have d: "gw_diff env = Inr diff" using r(1) by (auto split: sum.splits)
    from r(2) consider (as) "pr_assignees pl = []" "a \<in> set (fst (assign env cfg pl diff))"
      | (w) "a \<in> set (fst (post_warnings env cfg pl diff))"
      | (l) "a \<in> set (fst (add_labels env cfg))"
      unfolding bind_actions[of a "if pr_assignees pl = [] then assign env cfg pl diff else ([], Inr ())"]
        bind_actions[of a "post_warnings env cfg pl diff"]
      by (auto split: if_splits)
    then show ?thesis
    proof cases
      case as
      then show ?thesis using d by blast
    next
      case w
      then show ?thesis using d post_warnings_actions[OF w] by blast
    next
      case l
      then show ?thesis using d add_labels_actions[OF l] by blast
    qed
  qed
qed

lemma new_pr_sets_assignee:
  assumes "pr_assignees pl = []" and "gw_diff env = Inr diff"
    and "select_reviewer env cfg pl diff = (acts, Inr (r, post_msg))"
  shows "SetAssignee r \<in> set (fst (new_pr env cfg pl))"
proof -
  obtain to_mention where tm: "get_to_mention cfg diff = Inr to_mention"
    using get_to_mention_total by blast
  have "SetAssignee r \<in> set (fst (set_assignee env r to_mention (env_integration_user env)
                                     (pr_head_sha pl)))"
    by (simp add: set_assignee_actions)
  then have "SetAssignee r \<in> set (fst (assign env cfg pl diff))"
    using assms(3) tm unfolding assign_def by (simp add: bind_actions)
  then show ?thesis using assms(1,2) unfolding new_pr_def by (simp add: bind_actions)
qed

subsection \<open>The cc list of the mention comment\<close>

text \<open>
  Claim C2, as stated, fails: \<^verbatim>\<open>new_pr\<close> passes \<^verbatim>\<open>self.integration_user\<close> as the \<^verbatim>\<open>user\<close> of
  \<^verbatim>\<open>set_assignee\<close> and \<^verbatim>\<open>run_commands\<close>, so the name filtered out of the cc list is the
  account of the bot. Here \<^verbatim>\<open>carol\<close> is chosen and assigned, and the comment still lists
  \<^verbatim>\<open>carol\<close>; \<^verbatim>\<open>highfive\<close>, the integration user, is the name left out.
\<close>

theorem chosen_reviewer_in_cc_counterexample:
  "new_pr
     \<lparr>env_integration_user = ''highfive'', env_global_groups = [], env_random_draw = 0,
       gw_diff = Inr ''diff --git a/src/x.rs b/src/x.rs\<newline>+a'', gw_assignee = (\<lambda>_. None),
       gw_comment = (\<lambda>_. None), gw_search = Inr 3, gw_labels = None\<rparr>
     \<lparr>cfg_dirs = Some [(''src/x.rs'', [])], cfg_groups = Some [(''all'', [''@carol''])],
       cfg_mentions = Some [(''src/'', \<lparr>m_message = None, m_command = None,
                                      m_reviewers = [''carol'', ''highfive'', ''dave'']\<rparr>)],
       cfg_contributing = None, cfg_expected_branch = None, cfg_new_pr_labels = None\<rparr>
     \<lparr>pr_assignees = [], pr_body = None, pr_author = ''bob'',
       pr_base_label = ''rust-lang:master'', pr_head_sha = ''abc'', repo_fork = False\<rparr>
   = ([FetchDiff, LoadGlobalConfig, SetAssignee (Some ''carol''),
       MentionComment ''cc carol,dave'', SearchCommits ''bob'',
       ReviewComment
        ''r? @carol\<newline>\<newline>(rust_highfive has picked a reviewer for you, use r? to override)''],
      Inr ())"
  by code_simp

text \<open>
  Claim C2, amended. \<^verbatim>\<open>run_commands\<close> posts, for a non-empty list of mention rules, one
  comment: per mention its optional message and a line \<^verbatim>\<open>cc\<close> with the reviewers of that
  mention other than its argument \<^verbatim>\<open>user\<close>, then one trailer per distinct command. Every
  mention comment of \<^verbatim>\<open>new_pr\<close> is this text for the rules of \<^verbatim>\<open>get_to_mention\<close>, with the
  integration user as \<^verbatim>\<open>user\<close>: the name excluded from each cc list is the integration
  user's, not the chosen reviewer's.
\<close>

theorem mention_comment_excludes_integration_user:
  "run_commands env to_mention user sha
     = (if to_mention \<noteq> [] then post_comment env MentionComment (mention_text user sha to_mention)
        else ([], Inr ())) \<and>
   (MentionComment m \<in> set (fst (new_pr env cfg pl)) \<longrightarrow>
      (\<exists>diff rules. gw_diff env = Inr diff \<and> get_to_mention cfg diff = Inr rules \<and> rules \<noteq> [] \<and>
          m = join ''\<newline>\<newline>''
                (map (cc_block (env_integration_user env)) rules
                   @ command_trailers (pr_head_sha pl) rules)))"
proof -
  have "MentionComment m \<in> set (fst (new_pr env cfg pl)) \<longrightarrow>
      (\<exists>diff rules. gw_diff env = Inr diff \<and> get_to_mention cfg diff = Inr rules \<and> rules \<noteq> [] \<and>
          m = join ''\<newline>\<newline>''
                (map (cc_block (env_integration_user env)) rules
                   @ command_trailers (pr_head_sha pl) rules))"
  proof
    assume a: "MentionComment m \<in> set (fst (new_pr env cfg pl))"
    from new_pr_actions[OF a] obtain diff where d: "gw_diff env = Inr diff"
      "MentionComment m \<in> set (fst (assign env cfg pl diff))" by auto
    from assign_actions[OF d(2)] obtain rules where
      "get_to_mention cfg diff = Inr rules" "rules \<noteq> []"
      "m = mention_text (env_integration_user env) (pr_head_sha pl) rules" by auto
    then show "\<exists>diff rules. gw_diff env = Inr diff \<and> get_to_mention cfg diff = Inr rules \<and>
          rules \<noteq> [] \<and>
          m = join ''\<newline>\<newline>''
                (map (cc_block (env_integration_user env)) rules
                   @ command_trailers (pr_head_sha pl) rules)"
      using d(1) unfolding mention_text_def by blast
  qed
  then show ?thesis using run_commands_text[of env to_mention user sha] by blast
qed

theorem mention_comment_excludes_integration_user_witness:
  "MentionComment ''cc carol,dave'' \<in> set (fst (new_pr
     \<lparr>env_integration_user = ''highfive'', env_global_groups = [], env_random_draw = 0,
       gw_diff = Inr ''diff --git a/src/x.rs b/src/x.rs\<newline>+a'', gw_assignee = (\<lambda>_. None),
       gw_comment = (\<lambda>_. None), gw_search = Inr 3, gw_labels = None\<rparr>
     \<lparr>cfg_dirs = Some [(''src/x.rs'', [])], cfg_groups = Some [(''all'', [''@carol''])],
       cfg_mentions = Some [(''src/'', \<lparr>m_message = None, m_command = None,
                                      m_reviewers = [''carol'', ''highfive'', ''dave'']\<rparr>)],
       cfg_contributing = None, cfg_expected_branch = None, cfg_new_pr_labels = None\<rparr>
     \<lparr>pr_assignees = [], pr_body = None, pr_author = ''bob'',
       pr_base_label = ''rust-lang:master'', pr_head_sha = ''abc'', repo_fork = False\<rparr>)) \<and>
   (\<exists>diff rules.
       gw_diff \<lparr>env_integration_user = ''highfive'', env_global_groups = [], env_random_draw = 0,
       gw_diff = Inr ''diff --git a/src/x.rs b/src/x.rs\<newline>+a'', gw_assignee = (\<lambda>_. None),
       gw_comment = (\<lambda>_. None), gw_search = Inr 3, gw_labels = None\<rparr> = Inr diff \<and>
       get_to_mention
         \<lparr>cfg_dirs = Some [(''src/x.rs'', [])], cfg_groups = Some [(''all'', [''@carol''])],
       cfg_mentions = Some [(''src/'', \<lparr>m_message = None, m_command = None,
                                      m_reviewers = [''carol'', ''highfive'', ''dave'']\<rparr>)],
       cfg_contributing = None, cfg_expected_branch = None, cfg_new_pr_labels = None\<rparr> diff = Inr rules \<and>
       rules \<noteq> [] \<and>
       ''cc carol,dave''
         = join ''\<newline>\<newline>''
             (map (cc_block (env_integration_user \<lparr>env_integration_user = ''highfive'', env_global_groups = [], env_random_draw = 0,
       gw_diff = Inr ''diff --git a/src/x.rs b/src/x.rs\<newline>+a'', gw_assignee = (\<lambda>_. None),
       gw_comment = (\<lambda>_. None), gw_search = Inr 3, gw_labels = None\<rparr>)) rules
                @ command_trailers (pr_head_sha \<lparr>pr_assignees = [], pr_body = None, pr_author = ''bob'',
       pr_base_label = ''rust-lang:master'', pr_head_sha = ''abc'', repo_fork = False\<rparr>) rules))"
proof -
  let ?env = "\<lparr>env_integration_user = ''highfive'', env_global_groups = [], env_random_draw = 0,
       gw_diff = Inr ''diff --git a/src/x.rs b/src/x.rs\<newline>+a'', gw_assignee = (\<lambda>_. None),
       gw_comment = (\<lambda>_. None), gw_search = Inr 3, gw_labels = None\<rparr>"
  let ?cfg = "\<lparr>cfg_dirs = Some [(''src/x.rs'', [])], cfg_groups = Some [(''all'', [''@carol''])],
       cfg_mentions = Some [(''src/'', \<lparr>m_message = None, m_command = None,
                                      m_reviewers = [''carol'', ''highfive'', ''dave'']\<rparr>)],
       cfg_contributing = None, cfg_expected_branch = None, cfg_new_pr_labels = None\<rparr>"
  let ?pl = "\<lparr>pr_assignees = [], pr_body = None, pr_author = ''bob'',
       pr_base_label = ''rust-lang:master'', pr_head_sha = ''abc'', repo_fork = False\<rparr>"
  have h: "MentionComment ''cc carol,dave'' \<in> set (fst (new_pr ?env ?cfg ?pl))" by code_simp
  from mention_comment_excludes_integration_user[of ?env _ _ _ "''cc carol,dave''" ?cfg ?pl,
      THEN conjunct2, rule_format, OF h]
  show ?thesis using h by blast
qed

subsection \<open>A reviewer requested in the description\<close>

text \<open>
  Claim C9, as stated, fails twice. The body \<^verbatim>\<open>r? @carol\<close> names a reviewer, but the pull
  request already has an assignee, and \<^verbatim>\<open>new_pr\<close> assigns nobody: the whole block is under
  \<^verbatim>\<open>if not self.payload['pull_request', 'assignees']\<close>. And the body \<^verbatim>\<open>error? @dave\<close> holds
  \<^verbatim>\<open>r?\<close>, a space and \<^verbatim>\<open>@dave\<close>, but the pattern starts with \<^verbatim>\<open>\b\<close> and the \<^verbatim>\<open>r\<close> follows a
  letter: \<^verbatim>\<open>find_reviewer\<close> returns \<^verbatim>\<open>None\<close>, \<^verbatim>\<open>choose_reviewer\<close> is invoked and the notice is
  posted.
\<close>

theorem explicit_reviewer_counterexample:
  "find_reviewer (Some ''r? @carol'') = Some ''carol'' \<and>
   new_pr
     \<lparr>env_integration_user = ''highfive'', env_global_groups = [], env_random_draw = 0,
       gw_diff = Inr ''diff --git a/src/x.rs b/src/x.rs\<newline>+a'', gw_assignee = (\<lambda>_. None),
       gw_comment = (\<lambda>_. None), gw_search = Inr 3, gw_labels = None\<rparr>
     \<lparr>cfg_dirs = Some [(''src/x.rs'', [])], cfg_groups = Some [(''all'', [''@carol''])],
       cfg_mentions = Some [(''src/'', \<lparr>m_message = None, m_command = None,
                                      m_reviewers = [''carol'', ''highfive'', ''dave'']\<rparr>)],
       cfg_contributing = None, cfg_expected_branch = None, cfg_new_pr_labels = None\<rparr>
     \<lparr>pr_assignees = [''zed''], pr_body = Some ''r? @carol'', pr_author = ''bob'',
       pr_base_label = ''rust-lang:master'', pr_head_sha = ''abc'', repo_fork = False\<rparr>
   = ([FetchDiff], Inr ()) \<and>
   find_reviewer (Some ''error? @dave'') = None \<and>
   new_pr
     \<lparr>env_integration_user = ''highfive'', env_global_groups = [], env_random_draw = 0,
       gw_diff = Inr ''diff --git a/src/x.rs b/src/x.rs\<newline>+a'', gw_assignee = (\<lambda>_. None),
       gw_comment = (\<lambda>_. None), gw_search = Inr 3, gw_labels = None\<rparr>
     \<lparr>cfg_dirs = Some [(''src/x.rs'', [])], cfg_groups = Some [(''all'', [''@carol''])],
       cfg_mentions = Some [(''src/'', \<lparr>m_message = None, m_command = None,
                                      m_reviewers = [''carol'', ''highfive'', ''dave'']\<rparr>)],
       cfg_contributing = None, cfg_expected_branch = None, cfg_new_pr_labels = None\<rparr>
     \<lparr>pr_assignees = [], pr_body = Some ''error? @dave'', pr_author = ''bob'',
       pr_base_label = ''rust-lang:master'', pr_head_sha = ''abc'', repo_fork = False\<rparr>
   = ([FetchDiff, LoadGlobalConfig, SetAssignee (Some ''carol''),
       MentionComment ''cc carol,dave'', SearchCommits ''bob'',
       ReviewComment
        ''r? @carol\<newline>\<newline>(rust_highfive has picked a reviewer for you, use r? to override)''],
      Inr ())"
  by code_simp

text \<open>
  Claim C9, amended. Let the pull request have no assignee, let the diff be fetched, and let
  the body hold a reviewer mention: an \<^verbatim>\<open>r\<close> or \<^verbatim>\<open>R\<close> that does not follow a word character, a
  \<^verbatim>\<open>?\<close>, any number of the separators \<^verbatim>\<open>:\<close>, \<^verbatim>\<open>-\<close> and space, an \<^verbatim>\<open>@\<close> and a name, the longest
  run of letters, digits and \<^verbatim>\<open>-\<close>. Then \<^verbatim>\<open>find_reviewer\<close> returns the name of the leftmost
  mention of the body; the selection step of \<^verbatim>\<open>new_pr\<close> yields that name with \<^verbatim>\<open>post_msg\<close>
  false, without an action and without the error that \<^verbatim>\<open>choose_reviewer\<close> would raise
  (\<^verbatim>\<open>choose_reviewer\<close> is not invoked, \<^verbatim>\<open>_global.json\<close> is not read); \<^verbatim>\<open>new_pr\<close> sets the name
  as the assignee and sets no other; and no reviewer-selection notice is posted. In the
  example below the configuration has no \<^verbatim>\<open>groups\<close>, on which \<^verbatim>\<open>choose_reviewer\<close> raises
  \<^verbatim>\<open>KeyError\<close>, and \<^verbatim>\<open>new_pr\<close> ends normally.
\<close>

theorem explicit_reviewer_is_assigned:
  assumes "pr_assignees pl = []" and "gw_diff env = Inr diff" and "pr_body pl = Some body"
    and "mention_at body i name" and "\<forall>j<i. \<forall>n. \<not> mention_at body j n"
  shows "find_reviewer (pr_body pl) = Some name \<and>
         select_reviewer env cfg pl diff = ([], Inr (Some name, False)) \<and>
         SetAssignee (Some name) \<in> set (fst (new_pr env cfg pl)) \<and>
         (\<forall>r. SetAssignee r \<in> set (fst (new_pr env cfg pl)) \<longrightarrow> r = Some name) \<and>
         LoadGlobalConfig \<notin> set (fst (new_pr env cfg pl)) \<and>
         (\<forall>m. ReviewComment m \<notin> set (fst (new_pr env cfg pl)))"
proof -
  have fr: "find_reviewer (pr_body pl) = Some name"
    unfolding assms(3) using find_reviewer_leftmost[OF assms(4,5)] .
  have ne: "name \<noteq> []" using assms(4) unfolding mention_at_def by blast
  have sel: "\<And>d. select_reviewer env cfg pl d = ([], Inr (Some name, False))"
    using select_reviewer_explicit[OF fr ne] .
  have 1: "SetAssignee (Some name) \<in> set (fst (new_pr env cfg pl))"
    using new_pr_sets_assignee[OF assms(1,2) sel] .
  have 2: "\<forall>r. SetAssignee r \<in> set (fst (new_pr env cfg pl)) \<longrightarrow> r = Some name"
  proof (intro allI impI)
    fix r assume a: "SetAssignee r \<in> set (fst (new_pr env cfg pl))"
    from new_pr_actions[OF a] obtain d where "SetAssignee r \<in> set (fst (assign env cfg pl d))"
      by auto
    from assign_actions[OF this] show "r = Some name" using sel by auto
  qed
  have 3: "LoadGlobalConfig \<notin> set (fst (new_pr env cfg pl))"
  proof
    assume a: "LoadGlobalConfig \<in> set (fst (new_pr env cfg pl))"
    from new_pr_actions[OF a] obtain d where "LoadGlobalConfig \<in> set (fst (assign env cfg pl d))"
      by auto
    from assign_actions[OF this] show False using fr ne by auto
  qed
  have 4: "\<forall>m. ReviewComment m \<notin> set (fst (new_pr env cfg pl))"
  proof (intro allI notI)
    fix m assume a: "ReviewComment m \<in> set (fst (new_pr env cfg pl))"
    from new_pr_actions[OF a] obtain d where "ReviewComment m \<in> set (fst (assign env cfg pl d))"
      by auto
    from assign_actions[OF this] show False using sel by auto
  qed
  show ?thesis using fr sel[of diff] 1 2 3 4 by blast
qed

theorem explicit_reviewer_is_assigned_witness:
  "mention_at ''Why? r? @erin-x, thanks'' 5 ''erin-x'' \<and>
   \<not> (\<exists>j n. j < 5 \<and> mention_at ''Why? r? @erin-x, thanks'' j n) \<and>
   find_reviewer (Some ''Why? r? @erin-x, thanks'') = Some ''erin-x'' \<and>
   new_pr
     \<lparr>env_integration_user = ''highfive'', env_global_groups = [], env_random_draw = 0,
       gw_diff = Inr ''diff --git a/src/x.rs b/src/x.rs\<newline>+a'', gw_assignee = (\<lambda>_. None),
       gw_comment = (\<lambda>_. None), gw_search = Inr 3, gw_labels = None\<rparr>
     \<lparr>cfg_dirs = Some [(''src/x.rs'', [])], cfg_groups = None,
       cfg_mentions = Some [(''src/'', \<lparr>m_message = None, m_command = None,
                                      m_reviewers = [''carol'', ''highfive'', ''dave'']\<rparr>)],
       cfg_contributing = None, cfg_expected_branch = None, cfg_new_pr_labels = None\<rparr>
     \<lparr>pr_assignees = [], pr_body = Some ''Why? r? @erin-x, thanks'', pr_author = ''bob'',
       pr_base_label = ''rust-lang:master'', pr_head_sha = ''abc'', repo_fork = False\<rparr>
   = ([FetchDiff, SetAssignee (Some ''erin-x''), MentionComment ''cc carol,dave'',
       SearchCommits ''bob''], Inr ()) \<and>
   SetAssignee (Some ''erin-x'') \<in> set (fst (new_pr
     \<lparr>env_integration_user = ''highfive'', env_global_groups = [], env_random_draw = 0,
       gw_diff = Inr ''diff --git a/src/x.rs b/src/x.rs\<newline>+a'', gw_assignee = (\<lambda>_. None),
       gw_comment = (\<lambda>_. None), gw_search = Inr 3, gw_labels = None\<rparr>
     \<lparr>cfg_dirs = Some [(''src/x.rs'', [])], cfg_groups = None,
       cfg_mentions = Some [(''src/'', \<lparr>m_message = None, m_command = None,
                                      m_reviewers = [''carol'', ''highfive'', ''dave'']\<rparr>)],
       cfg_contributing = None, cfg_expected_branch = None, cfg_new_pr_labels = None\<rparr>
     \<lparr>pr_assignees = [], pr_body = Some ''Why? r? @erin-x, thanks'', pr_author = ''bob'',
       pr_base_label = ''rust-lang:master'', pr_head_sha = ''abc'', repo_fork = False\<rparr>)) \<and>
   LoadGlobalConfig \<notin> set (fst (new_pr
     \<lparr>env_integration_user = ''highfive'', env_global_groups = [], env_random_draw = 0,
       gw_diff = Inr ''diff --git a/src/x.rs b/src/x.rs\<newline>+a'', gw_assignee = (\<lambda>_. None),
       gw_comment = (\<lambda>_. None), gw_search = Inr 3, gw_labels = None\<rparr>
     \<lparr>cfg_dirs = Some [(''src/x.rs'', [])], cfg_groups = None,
       cfg_mentions = Some [(''src/'', \<lparr>m_message = None, m_command = None,
                                      m_reviewers = [''carol'', ''highfive'', ''dave'']\<rparr>)],
       cfg_contributing = None, cfg_expected_branch = None, cfg_new_pr_labels = None\<rparr>
     \<lparr>pr_assignees = [], pr_body = Some ''Why? r? @erin-x, thanks'', pr_author = ''bob'',
       pr_base_label = ''rust-lang:master'', pr_head_sha = ''abc'', repo_fork = False\<rparr>))"
proof -
  let ?env = "\<lparr>env_integration_user = ''highfive'', env_global_groups = [], env_random_draw = 0,
       gw_diff = Inr ''diff --git a/src/x.rs b/src/x.rs\<newline>+a'', gw_assignee = (\<lambda>_. None),
       gw_comment = (\<lambda>_. None), gw_search = Inr 3, gw_labels = None\<rparr>"
  let ?cfg = "\<lparr>cfg_dirs = Some [(''src/x.rs'', [])], cfg_groups = None,
       cfg_mentions = Some [(''src/'', \<lparr>m_message = None, m_command = None,
                                      m_reviewers = [''carol'', ''highfive'', ''dave'']\<rparr>)],
       cfg_contributing = None, cfg_expected_branch = None, cfg_new_pr_labels = None\<rparr>"
  let ?pl = "\<lparr>pr_assignees = [], pr_body = Some ''Why? r? @erin-x, thanks'', pr_author = ''bob'',
       pr_base_label = ''rust-lang:master'', pr_head_sha = ''abc'', repo_fork = False\<rparr>"
  let ?body = "''Why? r? @erin-x, thanks''"
  have 1: "pr_assignees ?pl = []" by simp
  have 2: "gw_diff ?env = Inr ''diff --git a/src/x.rs b/src/x.rs\<newline>+a''" by simp
  have 3: "pr_body ?pl = Some ?body" by simp
  have "5 \<le> length ?body \<and>
        match_at (if (5::nat) = 0 then None else Some (?body ! (5 - 1))) (drop 5 ?body)
          = Some ''erin-x''"
    by code_simp
  then have 4: "mention_at ?body 5 ''erin-x''" unfolding mention_at_match_at .
  have "\<forall>j\<in>{0..<5}. match_at (if j = 0 then None else Some (?body ! (j - 1))) (drop j ?body)
                        = None"
    by code_simp
  then have 5: "\<forall>j<5. \<forall>n. \<not> mention_at ?body j n" unfolding mention_at_match_at by simp
  have 6: "new_pr ?env ?cfg ?pl
             = ([FetchDiff, SetAssignee (Some ''erin-x''), MentionComment ''cc carol,dave'',
                 SearchCommits ''bob''], Inr ())"
    by code_simp
  from explicit_reviewer_is_assigned[OF 1 2 3 4 5, of ?cfg]
  show ?thesis using 4 5 6 by auto
qed

end
